theory Spec2Isabelle
  imports Main "HOL-Library.Char_ord"
begin

section \<open>Star Battle: data model\<close>

text \<open>
  The development follows \<^verbatim>\<open>pytudes/ipynb/StarBattle.ipynb\<close>. A cell is a Python
  integer, a unit a set of cells. \<^verbatim>\<open>Board\<close> and \<^verbatim>\<open>State\<close> are the two named
  tuples of the notebook; the field \<^verbatim>\<open>units\<close> of \<^verbatim>\<open>State\<close> is called
  \<open>st_units\<close> here, because a record field name can be declared only once.
\<close>

datatype error = KeyError | AssertionError | ZeroDivisionError | StopIteration

record board =
  N :: int
  S :: int
  units :: "int set list"
  units_for :: "int \<rightharpoonup> int set list"
  pic :: string

record state =
  st_units :: "int set list"
  stars :: "int set"
  unknowns :: "int set"

text \<open>
  Python iterates over a set in the order of its hash table, which the program text does
  not fix. Every loop over a set therefore takes the iteration order as a parameter: a
  function from a set to the list of its elements.
\<close>

type_synonym order = "int set \<Rightarrow> int list"

definition enum_ok :: "('a set \<Rightarrow> 'a list) \<Rightarrow> bool" where
  "enum_ok it = (\<forall>A. finite A \<longrightarrow> set (it A) = A \<and> distinct (it A))"

text \<open>
  A call of \<^verbatim>\<open>put_star\<close> or \<^verbatim>\<open>put_blank\<close> returns the state (success), returns
  \<^verbatim>\<open>None\<close> (failure) or raises; in every case the state object has been mutated, so
  the model returns the outcome together with the state as the call leaves it.
\<close>

datatype outcome = Success | Failure | Raise error

type_synonym result = "(outcome \<times> state) option"

section \<open>Counting and adjacency\<close>

definition count_stars :: "int set \<Rightarrow> state \<Rightarrow> int" where
  "count_stars unit s = int (card (unit \<inter> stars s))"

text \<open>\<^verbatim>\<open>cell % N\<close> raises \<^verbatim>\<open>ZeroDivisionError\<close> when \<^verbatim>\<open>N\<close> is zero.\<close>

definition neighbors :: "int \<Rightarrow> int \<Rightarrow> error + int set" where
  "neighbors cell n =
    (if n = 0 then Inl ZeroDivisionError
     else
       let dxs = {0, if cell mod n \<noteq> n - 1 then 1 else 0, if cell mod n \<noteq> 0 then - 1 else 0};
           dys = {0, if cell + n < n ^ 2 then n else 0, if cell \<ge> n then - n else 0}
       in Inr (\<Union>dy\<in>dys. \<Union>dx\<in>dxs. if dx \<noteq> 0 \<or> dy \<noteq> 0 then {cell + dx + dy} else {}))"

section \<open>Constraint propagation\<close>

text \<open>
  The loop of \<^verbatim>\<open>put_star\<close> over the neighbours; \<open>f\<close> stands for the recursive call of
  \<^verbatim>\<open>put_blank\<close>. A returned state is a non-empty tuple and so is true in Python.
\<close>

fun blank_each :: "(int \<Rightarrow> state \<Rightarrow> result) \<Rightarrow> int list \<Rightarrow> state \<Rightarrow> result" where
  "blank_each f [] s = Some (Success, s)"
| "blank_each f (c # cs) s =
    (if c \<in> stars s then Some (Failure, s)
     else (case f c s of
             None \<Rightarrow> None
           | Some (Success, s') \<Rightarrow> blank_each f cs s'
           | Some (Failure, s') \<Rightarrow> Some (Failure, s')
           | Some (Raise e, s') \<Rightarrow> Some (Raise e, s')))"

text \<open>\<^verbatim>\<open>all(put_star(c, board, state) for c in unknowns)\<close>, stopping at the first failure.\<close>

fun star_each :: "(int \<Rightarrow> state \<Rightarrow> result) \<Rightarrow> int list \<Rightarrow> state \<Rightarrow> result" where
  "star_each f [] s = Some (Success, s)"
| "star_each f (c # cs) s =
    (case f c s of
       None \<Rightarrow> None
     | Some (Success, s') \<Rightarrow> star_each f cs s'
     | Some (Failure, s') \<Rightarrow> Some (Failure, s')
     | Some (Raise e, s') \<Rightarrow> Some (Raise e, s'))"

text \<open>The loop of \<^verbatim>\<open>put_blank\<close> over the units of the cell.\<close>

fun units_loop :: "(int \<Rightarrow> state \<Rightarrow> result) \<Rightarrow> order \<Rightarrow> board \<Rightarrow> int set list \<Rightarrow> state \<Rightarrow> result" where
  "units_loop f it b [] s = Some (Success, s)"
| "units_loop f it b (u # us) s =
    (let k = count_stars u s; unk = u \<inter> unknowns s in
     if k + int (card unk) < S b then Some (Failure, s)
     else if k + int (card unk) = S b then
       (case star_each f (it unk) s of
          None \<Rightarrow> None
        | Some (Success, s') \<Rightarrow> units_loop f it b us s'
        | Some (Failure, s') \<Rightarrow> Some (Failure, s')
        | Some (Raise e, s') \<Rightarrow> Some (Raise e, s'))
     else units_loop f it b us s)"

text \<open>
  The bodies of \<^verbatim>\<open>put_star\<close> and \<^verbatim>\<open>put_blank\<close>, with the recursive call as the
  parameter \<open>f\<close>. \<^verbatim>\<open>state.unknowns.remove(cell)\<close> raises \<^verbatim>\<open>KeyError\<close> when the cell
  is not in the set, and so does \<^verbatim>\<open>board.units_for[cell]\<close> when the cell is no key.
\<close>

definition put_star_body ::
  "(int \<Rightarrow> state \<Rightarrow> result) \<Rightarrow> order \<Rightarrow> int \<Rightarrow> board \<Rightarrow> state \<Rightarrow> result" where
  "put_star_body f it cell b s =
    (if cell \<in> stars s then Some (Success, s)
     else if cell \<notin> unknowns s then Some (Raise KeyError, s)
     else
       let s1 = s\<lparr>stars := insert cell (stars s), unknowns := unknowns s - {cell}\<rparr> in
       case units_for b cell of
         None \<Rightarrow> Some (Raise KeyError, s1)
       | Some us \<Rightarrow>
           if \<exists>u\<in>set us. count_stars u s1 > S b then Some (Failure, s1)
           else (case neighbors cell (N b) of
                   Inl e \<Rightarrow> Some (Raise e, s1)
                 | Inr ns \<Rightarrow> blank_each f (it ns) s1))"

definition put_blank_body ::
  "(int \<Rightarrow> state \<Rightarrow> result) \<Rightarrow> order \<Rightarrow> int \<Rightarrow> board \<Rightarrow> state \<Rightarrow> result" where
  "put_blank_body f it cell b s =
    (if cell \<notin> unknowns s then Some (Success, s)
     else
       let s1 = s\<lparr>unknowns := unknowns s - {cell}\<rparr> in
       case units_for b cell of
         None \<Rightarrow> Some (Raise KeyError, s1)
       | Some us \<Rightarrow> units_loop f it b us s1)"

text \<open>
  The mutual recursion. The natural number is a budget of recursion depth: the number of
  levels of recursive calls that may still be opened below the present call. A call that
  would need one more level has no value (\<open>None\<close>).
\<close>

fun put_star :: "order \<Rightarrow> nat \<Rightarrow> int \<Rightarrow> board \<Rightarrow> state \<Rightarrow> result"
  and put_blank :: "order \<Rightarrow> nat \<Rightarrow> int \<Rightarrow> board \<Rightarrow> state \<Rightarrow> result" where
  "put_star it 0 cell b s = put_star_body (\<lambda>c s'. None) it cell b s"
| "put_star it (Suc d) cell b s = put_star_body (\<lambda>c s'. put_blank it d c b s') it cell b s"
| "put_blank it 0 cell b s = put_blank_body (\<lambda>c s'. None) it cell b s"
| "put_blank it (Suc d) cell b s = put_blank_body (\<lambda>c s'. put_star it d c b s') it cell b s"

section \<open>Building a board\<close>

text \<open>
  The characters that \<^verbatim>\<open>str.split()\<close> treats as whitespace, among the 8-bit
  characters: tab, the line and page breaks, the four separators 28 to 31, the space,
  NEL and the no-break space.
\<close>

definition whitespace :: "char \<Rightarrow> bool" where
  "whitespace ch = ((of_char ch :: nat) \<in> {9, 10, 11, 12, 13, 28, 29, 30, 31, 32, 133, 160})"

text \<open>
  \<^verbatim>\<open>int(len(pic) ** 0.5)\<close>: the integer part of the square root. The floating-point
  power is taken as exact, which it is for every length a picture can have.
\<close>

definition isqrt :: "nat \<Rightarrow> nat" where
  "isqrt n = last (filter (\<lambda>m. m * m \<le> n) [0..<Suc n])"

definition indexes :: "'a list \<Rightarrow> 'a \<Rightarrow> int set" where
  "indexes sequence item = int ` Set.filter (\<lambda>i. sequence ! i = item) {0..<length sequence}"

definition make_board :: "(char set \<Rightarrow> char list) \<Rightarrow> int \<Rightarrow> string \<Rightarrow> error + board" where
  "make_board itc s picture =
    (let p = filter (\<lambda>ch. \<not> whitespace ch) picture;
         n = int (isqrt (length p))
     in if int (length p) \<noteq> n * n then Inl AssertionError
        else
          let side = [0..n - 1];
              cols = map (\<lambda>c. (\<lambda>r. n * r + c) ` set side) side;
              rows = map (\<lambda>r. (\<lambda>c. n * r + c) ` set side) side;
              boxes = map (indexes p) (itc (set p));
              us = cols @ rows @ boxes
          in Inr \<lparr>N = n, S = s, units = us,
                  units_for = (\<lambda>c. if 0 \<le> c \<and> c < n * n then Some (filter (\<lambda>u. c \<in> u) us) else None),
                  pic = p\<rparr>)"

text \<open>What \<^verbatim>\<open>make_board\<close> establishes and the solver relies on.\<close>

definition wf_board :: "board \<Rightarrow> bool" where
  "wf_board b =
    ((\<forall>u\<in>set (units b). finite u) \<and>
     (\<forall>c\<in>\<Union>(set (units b)). units_for b c = Some (filter (\<lambda>u. c \<in> u) (units b))) \<and>
     {0..<(N b) ^ 2} \<subseteq> \<Union>(set (units b)) \<and>
     (N b = 0 \<longrightarrow> units b = []))"

section \<open>Depth-first search\<close>

definition copy_state :: "state \<Rightarrow> state" where
  "copy_state s = \<lparr>st_units = st_units s, stars = stars s, unknowns = unknowns s\<rparr>"

definition initial_state :: "board \<Rightarrow> state" where
  "initial_state b =
    \<lparr>st_units = sort_key card (units b), stars = {}, unknowns = {0..<(N b) ^ 2}\<rparr>"

text \<open>The \<^verbatim>\<open>while\<close> loop of \<^verbatim>\<open>search\<close>, which pops the filled units off the front.\<close>

definition drop_filled :: "board \<Rightarrow> state \<Rightarrow> state" where
  "drop_filled b s = s\<lparr>st_units := dropWhile (\<lambda>u. count_stars u s = S b) (st_units s)\<rparr>"

text \<open>
  A generator is modelled by the list of the states it yields and the exception that ends
  it, if one does. \<open>guesses\<close> is the \<^verbatim>\<open>for\<close> loop of \<^verbatim>\<open>search\<close>; \<open>f\<close> stands for
  \<^verbatim>\<open>put_star\<close> and \<open>g\<close> for the recursive call of \<^verbatim>\<open>search\<close>.
\<close>

type_synonym yields = "(state list \<times> error option) option"

fun guesses :: "(int \<Rightarrow> state \<Rightarrow> result) \<Rightarrow> (state \<Rightarrow> yields) \<Rightarrow> int list \<Rightarrow> state \<Rightarrow> yields" where
  "guesses f g [] s = Some ([], None)"
| "guesses f g (c # cs) s =
    (case f c (copy_state s) of
       None \<Rightarrow> None
     | Some (Raise e, gs) \<Rightarrow> Some ([], Some e)
     | Some (Failure, gs) \<Rightarrow> guesses f g cs s
     | Some (Success, gs) \<Rightarrow>
         (case g gs of
            None \<Rightarrow> None
          | Some (ys, Some e) \<Rightarrow> Some (ys, Some e)
          | Some (ys, None) \<Rightarrow>
              (case guesses f g cs s of
                 None \<Rightarrow> None
               | Some (zs, e) \<Rightarrow> Some (ys @ zs, e))))"

definition search_body ::
  "(int \<Rightarrow> state \<Rightarrow> result) \<Rightarrow> (state \<Rightarrow> yields) \<Rightarrow> order \<Rightarrow> board \<Rightarrow> state \<Rightarrow> yields" where
  "search_body f g it b s =
    (let s0 = drop_filled b s in
     case st_units s0 of
       [] \<Rightarrow> Some ([s0], None)
     | u # us \<Rightarrow> guesses f g (it (u \<inter> unknowns s0)) s0)"

text \<open>
  The depth budget \<open>d\<close> serves both the recursion of \<^verbatim>\<open>search\<close> and the propagation
  that each guess starts.
\<close>

fun search :: "order \<Rightarrow> nat \<Rightarrow> board \<Rightarrow> state \<Rightarrow> yields" where
  "search it 0 b s = search_body (\<lambda>c s'. put_star it 0 c b s') (\<lambda>s'. None) it b s"
| "search it (Suc d) b s =
    search_body (\<lambda>c s'. put_star it (Suc d) c b s') (\<lambda>s'. search it d b s') it b s"

section \<open>Validation\<close>

definition nbrs :: "int \<Rightarrow> int \<Rightarrow> int set" where
  "nbrs cell n = (case neighbors cell n of Inl e \<Rightarrow> {} | Inr ns \<Rightarrow> ns)"

text \<open>
  \<^verbatim>\<open>and\<close> evaluates its second operand only when the first is true, and the second
  operand calls \<^verbatim>\<open>neighbors\<close> only when there is a star.
\<close>

definition is_solution :: "board \<Rightarrow> int set \<Rightarrow> error + bool" where
  "is_solution b st =
    (if \<not> (\<forall>unit\<in>set (units b). int (card (st \<inter> unit)) = S b) then Inr False
     else if st = {} then Inr True
     else if N b = 0 then Inl ZeroDivisionError
     else Inr (\<forall>c1\<in>st. \<forall>c2\<in>st. c1 \<notin> nbrs c2 (N b)))"

text \<open>
  \<^verbatim>\<open>solve\<close> takes the first state of the generator with \<^verbatim>\<open>next\<close>, which raises
  \<^verbatim>\<open>StopIteration\<close> on a generator that ends without a state; \<^verbatim>\<open>print_board\<close>
  then evaluates \<^verbatim>\<open>is_solution\<close>. What is printed is left out.
\<close>

definition solve :: "order \<Rightarrow> nat \<Rightarrow> board \<Rightarrow> (error + int set) option" where
  "solve it d b =
    (case search it d b (initial_state b) of
       None \<Rightarrow> None
     | Some ([], None) \<Rightarrow> Some (Inl StopIteration)
     | Some ([], Some e) \<Rightarrow> Some (Inl e)
     | Some (y # ys, e) \<Rightarrow>
         (case is_solution b (stars y) of
            Inl e' \<Rightarrow> Some (Inl e')
          | Inr v \<Rightarrow> Some (Inr (stars y))))"

definition step :: "state \<Rightarrow> state \<Rightarrow> bool" where
  "step s s' =
    (st_units s' = st_units s \<and> stars s \<subseteq> stars s' \<and> unknowns s' \<subseteq> unknowns s \<and>
     stars s' \<union> unknowns s' \<subseteq> stars s \<union> unknowns s \<and>
     (stars s \<inter> unknowns s = {} \<longrightarrow> stars s' \<inter> unknowns s' = {}))"

definition pot :: "int set \<Rightarrow> state \<Rightarrow> int" where
  "pot u s = count_stars u s + int (card (u \<inter> unknowns s))"

definition ok :: "state \<Rightarrow> bool" where
  "ok s = (stars s \<inter> unknowns s = {})"

definition good :: "board \<Rightarrow> state \<Rightarrow> state \<Rightarrow> bool" where
  "good b s s' =
    ((\<forall>c\<in>stars s' - stars s. nbrs c (N b) \<inter> (stars s' \<union> unknowns s') = {}) \<and>
     (\<forall>u\<in>set (units b). count_stars u s' \<noteq> count_stars u s \<longrightarrow> count_stars u s' \<le> S b) \<and>
     (\<forall>u\<in>set (units b). pot u s' < pot u s \<longrightarrow> S b \<le> pot u s'))"

definition G :: "board \<Rightarrow> state \<Rightarrow> state \<Rightarrow> bool" where
  "G b s s' = (step s s' \<and> (ok s \<longrightarrow> good b s s'))"

text \<open>
  Concrete inputs for the instances below: the iteration order that lists a set in
  ascending order, and the board of the picture \<^verbatim>\<open>a\<close> as \<^verbatim>\<open>make_board\<close> builds it.
\<close>

definition ascending :: "'a::linorder set \<Rightarrow> 'a list" where
  "ascending A = sorted_list_of_set A"

definition board_1x1 :: "int \<Rightarrow> board" where
  "board_1x1 s = \<lparr>N = 1, S = s, units = [{0}, {0}, {0}],
     units_for = (\<lambda>c. if 0 \<le> c \<and> c < 1 then Some [{0}, {0}, {0}] else None), pic = ''a''\<rparr>"

definition wf_state :: "board \<Rightarrow> state \<Rightarrow> bool" where
  "wf_state b s = (ok s \<and> stars s \<union> unknowns s \<subseteq> \<Union>(set (units b)))"

definition adj :: "board \<Rightarrow> state \<Rightarrow> bool" where
  "adj b s = (\<forall>c\<in>stars s. nbrs c (N b) \<inter> (stars s \<union> unknowns s) = {})"

definition sinv :: "board \<Rightarrow> state \<Rightarrow> bool" where
  "sinv b s =
    (ok s \<and> stars s \<union> unknowns s \<subseteq> {0..<(N b) ^ 2} \<and> adj b s \<and>
     (\<forall>u\<in>set (units b). u \<notin> set (st_units s) \<longrightarrow> count_stars u s = S b))"

text \<open>
  The board that \<^verbatim>\<open>make_board\<close> returns for a picture, with the sets listed in ascending
  order; the empty board stands in when the assertion fails. \<open>board5x5\<close> is the first
  board of the notebook, with the letters \<open>a\<close> to \<open>e\<close> for its five box labels.
\<close>

definition board_of :: "int \<Rightarrow> string \<Rightarrow> board" where
  "board_of s picture =
    (case make_board ascending s picture of
       Inr b \<Rightarrow> b
     | Inl e \<Rightarrow> \<lparr>N = 0, S = s, units = [], units_for = (\<lambda>c. None), pic = []\<rparr>)"

definition board5x5 :: board where
  "board5x5 = board_of 1 ''abccc abddc abdde aeeee aeeee''"





text \<open>
  The 2\<times>2 board of the picture \<^verbatim>\<open>ab cd\<close> with one star per unit, and the iteration
  order that lists a set in descending order.
\<close>

definition board2x2 :: board where
  "board2x2 = board_of 1 ''ab cd''"


lemma step_refl: "step s s"
  by (simp add: step_def)

lemma step_trans:
  assumes "step s s'" "step s' s''"
  shows "step s s''"
proof -
  have 1: "st_units s'' = st_units s" using assms by (simp add: step_def)
  have 2: "stars s \<subseteq> stars s''" using assms unfolding step_def by (meson subset_trans)
  have 3: "unknowns s'' \<subseteq> unknowns s" using assms unfolding step_def by (meson subset_trans)
  have 4: "stars s'' \<union> unknowns s'' \<subseteq> stars s \<union> unknowns s"
    using assms unfolding step_def by (meson subset_trans)
  have 5: "stars s \<inter> unknowns s = {} \<longrightarrow> stars s'' \<inter> unknowns s'' = {}"
    using assms by (simp add: step_def)
  from 1 2 3 4 5 show ?thesis by (simp add: step_def)
qed

lemma blank_each_step:
  assumes f: "\<And>c s r s'. f c s = Some (r, s') \<Longrightarrow> step s s'"
  shows "blank_each f cs s = Some (r, s') \<Longrightarrow> step s s'"
proof (induction cs arbitrary: s)
  case Nil
  then show ?case by (simp add: step_refl)
next
  case (Cons c cs)
  show ?case
  proof (cases "c \<in> stars s")
    case True
    with Cons.prems show ?thesis by (simp add: step_refl)
  next
    case False
    with Cons.prems obtain r1 s1 where c1: "f c s = Some (r1, s1)"
      by (auto split: option.splits)
    have s1: "step s s1" using f [OF c1] .
    show ?thesis
    proof (cases r1)
      case Success
      with Cons.prems False c1 have "blank_each f cs s1 = Some (r, s')" by simp
      from Cons.IH [OF this] s1 show ?thesis by (rule step_trans [rotated])
    next
      case Failure
      with Cons.prems False c1 s1 show ?thesis by simp
    next
      case (Raise e)
      with Cons.prems False c1 s1 show ?thesis by simp
    qed
  qed
qed

lemma star_each_step:
  assumes f: "\<And>c s r s'. f c s = Some (r, s') \<Longrightarrow> step s s'"
  shows "star_each f cs s = Some (r, s') \<Longrightarrow> step s s'"
proof (induction cs arbitrary: s)
  case Nil
  then show ?case by (simp add: step_refl)
next
  case (Cons c cs)
  from Cons.prems obtain r1 s1 where c1: "f c s = Some (r1, s1)"
    by (auto split: option.splits)
  have s1: "step s s1" using f [OF c1] .
  show ?case
  proof (cases r1)
    case Success
    with Cons.prems c1 have "star_each f cs s1 = Some (r, s')" by simp
    from Cons.IH [OF this] s1 show ?thesis by (rule step_trans [rotated])
  next
    case Failure
    with Cons.prems c1 s1 show ?thesis by simp
  next
    case (Raise e)
    with Cons.prems c1 s1 show ?thesis by simp
  qed
qed

lemma units_loop_step:
  assumes f: "\<And>c s r s'. f c s = Some (r, s') \<Longrightarrow> step s s'"
  shows "units_loop f it b us s = Some (r, s') \<Longrightarrow> step s s'"
proof (induction us arbitrary: s)
  case Nil
  then show ?case by (simp add: step_refl)
next
  case (Cons u us)
  let ?p = "count_stars u s + int (card (u \<inter> unknowns s))"
  consider (less) "?p < S b" | (eq) "?p = S b" | (more) "?p > S b" by linarith
  then show ?case
  proof cases
    case less
    with Cons.prems show ?thesis by (simp add: Let_def step_refl)
  next
    case more
    with Cons.prems have "units_loop f it b us s = Some (r, s')" by (simp add: Let_def)
    then show ?thesis by (rule Cons.IH)
  next
    case eq
    with Cons.prems obtain r1 s1 where c1: "star_each f (it (u \<inter> unknowns s)) s = Some (r1, s1)"
      by (auto simp: Let_def split: option.splits)
    have s1: "step s s1" using star_each_step [OF f c1] .
    show ?thesis
    proof (cases r1)
      case Success
      with Cons.prems eq c1 have "units_loop f it b us s1 = Some (r, s')" by (simp add: Let_def)
      from Cons.IH [OF this] s1 show ?thesis by (rule step_trans [rotated])
    next
      case Failure
      with Cons.prems eq c1 s1 show ?thesis by (simp add: Let_def)
    next
      case (Raise e)
      with Cons.prems eq c1 s1 show ?thesis by (simp add: Let_def)
    qed
  qed
qed

lemma put_star_body_step:
  assumes f: "\<And>c s r s'. f c s = Some (r, s') \<Longrightarrow> step s s'"
    and r: "put_star_body f it cell b s = Some (r, s')"
  shows "step s s'"
proof (cases "cell \<in> stars s \<or> cell \<notin> unknowns s")
  case True
  with r show ?thesis by (auto simp: put_star_body_def step_refl split: if_splits)
next
  case False
  define s1 where "s1 = s\<lparr>stars := insert cell (stars s), unknowns := unknowns s - {cell}\<rparr>"
  have s1: "step s s1" using False by (auto simp: s1_def step_def)
  from r False have "s' = s1 \<or> (\<exists>ns. blank_each f (it ns) s1 = Some (r, s'))"
    by (auto simp: put_star_body_def Let_def s1_def split: option.splits if_splits sum.splits)
  then show ?thesis
  proof
    assume "s' = s1" with s1 show ?thesis by simp
  next
    assume "\<exists>ns. blank_each f (it ns) s1 = Some (r, s')"
    then obtain ns where "blank_each f (it ns) s1 = Some (r, s')" ..
    from blank_each_step [OF f this] s1 show ?thesis by (rule step_trans [rotated])
  qed
qed

lemma put_blank_body_step:
  assumes f: "\<And>c s r s'. f c s = Some (r, s') \<Longrightarrow> step s s'"
    and r: "put_blank_body f it cell b s = Some (r, s')"
  shows "step s s'"
proof (cases "cell \<notin> unknowns s")
  case True
  with r show ?thesis by (simp add: put_blank_body_def step_refl)
next
  case False
  define s1 where "s1 = s\<lparr>unknowns := unknowns s - {cell}\<rparr>"
  have s1: "step s s1" by (auto simp: s1_def step_def)
  from r False have "s' = s1 \<or> (\<exists>us. units_loop f it b us s1 = Some (r, s'))"
    by (auto simp: put_blank_body_def Let_def s1_def split: option.splits)
  then show ?thesis
  proof
    assume "s' = s1" with s1 show ?thesis by simp
  next
    assume "\<exists>us. units_loop f it b us s1 = Some (r, s')"
    then obtain us where "units_loop f it b us s1 = Some (r, s')" ..
    from units_loop_step [OF f this] s1 show ?thesis by (rule step_trans [rotated])
  qed
qed

lemma prop_step:
  "(\<forall>c s r s'. put_star it d c b s = Some (r, s') \<longrightarrow> step s s') \<and>
   (\<forall>c s r s'. put_blank it d c b s = Some (r, s') \<longrightarrow> step s s')"
proof (induction d)
  case 0
  show ?case
  proof (intro conjI allI impI)
    fix c s r s'
    assume "put_star it 0 c b s = Some (r, s')"
    then have "put_star_body (\<lambda>c s'. None) it c b s = Some (r, s')" by simp
    then show "step s s'" by (rule put_star_body_step [rotated]) simp
  next
    fix c s r s'
    assume "put_blank it 0 c b s = Some (r, s')"
    then have "put_blank_body (\<lambda>c s'. None) it c b s = Some (r, s')" by simp
    then show "step s s'" by (rule put_blank_body_step [rotated]) simp
  qed
next
  case (Suc d)
  show ?case
  proof (intro conjI allI impI)
    fix c s r s'
    assume "put_star it (Suc d) c b s = Some (r, s')"
    then have "put_star_body (\<lambda>c s'. put_blank it d c b s') it c b s = Some (r, s')" by simp
    then show "step s s'" using Suc.IH by (blast intro: put_star_body_step [rotated])
  next
    fix c s r s'
    assume "put_blank it (Suc d) c b s = Some (r, s')"
    then have "put_blank_body (\<lambda>c s'. put_star it d c b s') it c b s = Some (r, s')" by simp
    then show "step s s'" using Suc.IH by (blast intro: put_blank_body_step [rotated])
  qed
qed

lemma put_star_step: "put_star it d c b s = Some (r, s') \<Longrightarrow> step s s'"
  using prop_step by blast

lemma put_blank_step: "put_blank it d c b s = Some (r, s') \<Longrightarrow> step s s'"
  using prop_step by blast

lemma step_ok: "step s s' \<Longrightarrow> ok s \<Longrightarrow> ok s'"
  by (simp add: step_def ok_def)

lemma pot_card:
  assumes "finite u" "ok s"
  shows "pot u s = int (card (u \<inter> (stars s \<union> unknowns s)))"
proof -
  have "card ((u \<inter> stars s) \<union> (u \<inter> unknowns s)) = card (u \<inter> stars s) + card (u \<inter> unknowns s)"
    using assms by (intro card_Un_disjoint) (auto simp: ok_def)
  moreover have "(u \<inter> stars s) \<union> (u \<inter> unknowns s) = u \<inter> (stars s \<union> unknowns s)" by blast
  ultimately show ?thesis by (simp add: pot_def count_stars_def)
qed

lemma pot_mono:
  assumes "finite u" "ok s" "step s s'"
  shows "pot u s' \<le> pot u s"
proof -
  have "ok s'" using assms by (blast intro: step_ok)
  moreover have "u \<inter> (stars s' \<union> unknowns s') \<subseteq> u \<inter> (stars s \<union> unknowns s)"
    using assms(3) by (auto simp: step_def)
  then have "card (u \<inter> (stars s' \<union> unknowns s')) \<le> card (u \<inter> (stars s \<union> unknowns s))"
    using assms(1) by (intro card_mono) auto
  ultimately show ?thesis using assms by (simp add: pot_card)
qed

lemma pot_same:
  assumes "finite u" "ok s" "step s s'" "pot u s \<le> pot u s'"
  shows "u \<inter> (stars s' \<union> unknowns s') = u \<inter> (stars s \<union> unknowns s)"
proof -
  have "ok s'" using assms by (blast intro: step_ok)
  have sub: "u \<inter> (stars s' \<union> unknowns s') \<subseteq> u \<inter> (stars s \<union> unknowns s)"
    using assms(3) by (auto simp: step_def)
  have "card (u \<inter> (stars s \<union> unknowns s)) \<le> card (u \<inter> (stars s' \<union> unknowns s'))"
    using assms \<open>ok s'\<close> by (simp add: pot_card)
  with sub show ?thesis using assms(1) by (intro card_seteq) auto
qed

lemma G_refl: "G b s s"
  by (simp add: G_def good_def step_refl)

lemma G_trans:
  assumes wf: "wf_board b" and 1: "G b s s'" and 2: "G b s' s''"
  shows "G b s s''"
proof -
  have st: "step s s'" "step s' s''" using 1 2 by (simp_all add: G_def)
  have st2: "step s s''" using st by (rule step_trans)
  have "good b s s''" if ok: "ok s"
  proof -
    have ok': "ok s'" using st(1) ok by (rule step_ok)
    have g1: "good b s s'" and g2: "good b s' s''" using 1 2 ok ok' by (simp_all add: G_def)
    have a: "\<forall>c\<in>stars s'' - stars s. nbrs c (N b) \<inter> (stars s'' \<union> unknowns s'') = {}"
    proof
      fix c assume c: "c \<in> stars s'' - stars s"
      show "nbrs c (N b) \<inter> (stars s'' \<union> unknowns s'') = {}"
      proof (cases "c \<in> stars s'")
        case True
        with c g1 have "nbrs c (N b) \<inter> (stars s' \<union> unknowns s') = {}" by (simp add: good_def)
        moreover have "stars s'' \<union> unknowns s'' \<subseteq> stars s' \<union> unknowns s'"
          using st(2) by (simp add: step_def)
        ultimately show ?thesis by blast
      next
        case False
        with c g2 show ?thesis by (simp add: good_def)
      qed
    qed
    have q: "\<forall>u\<in>set (units b). count_stars u s'' \<noteq> count_stars u s \<longrightarrow> count_stars u s'' \<le> S b"
    proof (intro ballI impI)
      fix u assume u: "u \<in> set (units b)" and ne: "count_stars u s'' \<noteq> count_stars u s"
      show "count_stars u s'' \<le> S b"
      proof (cases "count_stars u s'' = count_stars u s'")
        case True
        with ne g1 u show ?thesis by (simp add: good_def)
      next
        case False
        with g2 u show ?thesis by (simp add: good_def)
      qed
    qed
    have p: "\<forall>u\<in>set (units b). pot u s'' < pot u s \<longrightarrow> S b \<le> pot u s''"
    proof (intro ballI impI)
      fix u assume u: "u \<in> set (units b)" and lt: "pot u s'' < pot u s"
      have fin: "finite u" using wf u by (simp add: wf_board_def)
      have m2: "pot u s'' \<le> pot u s'" using fin ok' st(2) by (rule pot_mono)
      show "S b \<le> pot u s''"
      proof (cases "pot u s'' < pot u s'")
        case True
        with g2 u show ?thesis by (simp add: good_def)
      next
        case False
        with m2 have "pot u s'' = pot u s'" by simp
        with lt g1 u show ?thesis by (simp add: good_def)
      qed
    qed
    from a q p show ?thesis by (simp add: good_def)
  qed
  with st2 show ?thesis by (simp add: G_def)
qed

lemma blank_each_Cons_Success:
  "blank_each f (c # cs) s = Some (Success, s') \<longleftrightarrow>
    c \<notin> stars s \<and> (\<exists>s1. f c s = Some (Success, s1) \<and> blank_each f cs s1 = Some (Success, s'))"
proof (cases "f c s")
  case None
  then show ?thesis by simp
next
  case (Some p)
  obtain r s1 where p: "p = (r, s1)" by (cases p)
  show ?thesis using Some p by (cases r) simp_all
qed

lemma star_each_Cons_Success:
  "star_each f (c # cs) s = Some (Success, s') \<longleftrightarrow>
    (\<exists>s1. f c s = Some (Success, s1) \<and> star_each f cs s1 = Some (Success, s'))"
proof (cases "f c s")
  case None
  then show ?thesis by simp
next
  case (Some p)
  obtain r s1 where p: "p = (r, s1)" by (cases p)
  show ?thesis using Some p by (cases r) simp_all
qed

lemma units_loop_Cons_Success:
  "units_loop f it b (u # us) s = Some (Success, s') \<longleftrightarrow>
    S b \<le> pot u s \<and>
    (if pot u s = S b
     then \<exists>s1. star_each f (it (u \<inter> unknowns s)) s = Some (Success, s1) \<and>
               units_loop f it b us s1 = Some (Success, s')
     else units_loop f it b us s = Some (Success, s'))"
proof (cases "pot u s = S b")
  case False
  then show ?thesis by (auto simp: Let_def pot_def)
next
  case True
  show ?thesis
  proof (cases "star_each f (it (u \<inter> unknowns s)) s")
    case None
    with True show ?thesis by (simp add: Let_def pot_def)
  next
    case (Some p)
    obtain r s1 where p: "p = (r, s1)" by (cases p)
    show ?thesis using True Some p by (cases r) (simp_all add: Let_def pot_def)
  qed
qed

lemma blank_each_G:
  assumes wf: "wf_board b"
    and f: "\<And>c s s'. f c s = Some (Success, s') \<Longrightarrow> G b s s'"
  shows "blank_each f cs s = Some (Success, s') \<Longrightarrow> G b s s'"
proof (induction cs arbitrary: s)
  case Nil
  then show ?case by (simp add: G_refl)
next
  case (Cons c cs)
  from Cons.prems obtain s1 where c1: "f c s = Some (Success, s1)"
    and rest: "blank_each f cs s1 = Some (Success, s')"
    by (auto simp: blank_each_Cons_Success simp del: blank_each.simps)
  from wf f [OF c1] Cons.IH [OF rest] show ?case by (rule G_trans)
qed

lemma star_each_G:
  assumes wf: "wf_board b"
    and f: "\<And>c s s'. f c s = Some (Success, s') \<Longrightarrow> G b s s'"
  shows "star_each f cs s = Some (Success, s') \<Longrightarrow> G b s s'"
proof (induction cs arbitrary: s)
  case Nil
  then show ?case by (simp add: G_refl)
next
  case (Cons c cs)
  from Cons.prems obtain s1 where c1: "f c s = Some (Success, s1)"
    and rest: "star_each f cs s1 = Some (Success, s')"
    by (auto simp: star_each_Cons_Success simp del: star_each.simps)
  from wf f [OF c1] Cons.IH [OF rest] show ?case by (rule G_trans)
qed

lemma units_loop_cases:
  assumes "units_loop f it b (u # us) s = Some (Success, s')"
  obtains s1 where "S b \<le> pot u s" "s1 = s \<or> star_each f (it (u \<inter> unknowns s)) s = Some (Success, s1)"
    "units_loop f it b us s1 = Some (Success, s')"
  using assms
  by (auto simp: units_loop_Cons_Success simp del: units_loop.simps split: if_splits)

lemma units_loop_G:
  assumes wf: "wf_board b"
    and f: "\<And>c s s'. f c s = Some (Success, s') \<Longrightarrow> G b s s'"
  shows "units_loop f it b us s = Some (Success, s') \<Longrightarrow> G b s s'"
proof (induction us arbitrary: s)
  case Nil
  then show ?case by (simp add: G_refl)
next
  case (Cons u us)
  from Cons.prems obtain s1 where
    s1: "s1 = s \<or> star_each f (it (u \<inter> unknowns s)) s = Some (Success, s1)"
    and rest: "units_loop f it b us s1 = Some (Success, s')"
    by (rule units_loop_cases)
  have "G b s s1" using s1 star_each_G [OF wf f] by (auto simp: G_refl)
  from wf this Cons.IH [OF rest] show ?case by (rule G_trans)
qed

lemma units_loop_checked:
  assumes wf: "wf_board b"
    and f: "\<And>c s s'. f c s = Some (Success, s') \<Longrightarrow> G b s s'"
  shows "units_loop f it b us s = Some (Success, s') \<Longrightarrow> ok s \<Longrightarrow> set us \<subseteq> set (units b)
    \<Longrightarrow> \<forall>u\<in>set us. S b \<le> pot u s'"
proof (induction us arbitrary: s)
  case Nil
  then show ?case by simp
next
  case (Cons u us)
  from Cons.prems(1) obtain s1 where
    chk: "S b \<le> pot u s"
    and s1: "s1 = s \<or> star_each f (it (u \<inter> unknowns s)) s = Some (Success, s1)"
    and rest: "units_loop f it b us s1 = Some (Success, s')"
    by (rule units_loop_cases)
  have g1: "G b s s1" using s1 star_each_G [OF wf f] by (auto simp: G_refl)
  have g2: "G b s1 s'" using wf f rest by (rule units_loop_G)
  have g: "G b s s'" using wf g1 g2 by (rule G_trans)
  have ok1: "ok s1" using g1 Cons.prems(2) by (auto simp: G_def intro: step_ok)
  have u: "u \<in> set (units b)" using Cons.prems(3) by simp
  have "S b \<le> pot u s'"
  proof (cases "pot u s' < pot u s")
    case True
    with g Cons.prems(2) u show ?thesis by (simp add: G_def good_def)
  next
    case False
    with chk show ?thesis by simp
  qed
  moreover have "\<forall>u\<in>set us. S b \<le> pot u s'"
    using Cons.IH [OF rest ok1] Cons.prems(3) by simp
  ultimately show ?case by simp
qed

lemma enum_ok_set: "enum_ok it \<Longrightarrow> finite A \<Longrightarrow> set (it A) = A"
  by (simp add: enum_ok_def)

lemma neighbors_finite: "neighbors cell n = Inr ns \<Longrightarrow> finite ns"
  by (auto simp: neighbors_def Let_def split: if_splits)

lemma nbrs_neighbors: "neighbors cell n = Inr ns \<Longrightarrow> nbrs cell n = ns"
  by (simp add: nbrs_def)

lemma wf_board_finite: "wf_board b \<Longrightarrow> u \<in> set (units b) \<Longrightarrow> finite u"
  by (simp add: wf_board_def)

lemma wf_board_units_for:
  "wf_board b \<Longrightarrow> u \<in> set (units b) \<Longrightarrow> c \<in> u \<Longrightarrow>
    units_for b c = Some (filter (\<lambda>u. c \<in> u) (units b))"
  unfolding wf_board_def by (meson UnionI)

lemma blank_each_blanks:
  assumes f: "\<And>c s r s'. f c s = Some (r, s') \<Longrightarrow>
      step s s' \<and> (c \<notin> stars s \<longrightarrow> c \<notin> stars s' \<union> unknowns s')"
  shows "blank_each f cs s = Some (Success, s') \<Longrightarrow> \<forall>c\<in>set cs. c \<notin> stars s' \<union> unknowns s'"
proof (induction cs arbitrary: s)
  case Nil
  then show ?case by simp
next
  case (Cons c cs)
  from Cons.prems obtain s1 where nc: "c \<notin> stars s" and c1: "f c s = Some (Success, s1)"
    and rest: "blank_each f cs s1 = Some (Success, s')"
    by (auto simp: blank_each_Cons_Success simp del: blank_each.simps)
  have "c \<notin> stars s1 \<union> unknowns s1" using f [OF c1] nc by simp
  moreover have "step s1 s'" using rest by (rule blank_each_step [rotated]) (simp add: f)
  then have "stars s' \<union> unknowns s' \<subseteq> stars s1 \<union> unknowns s1" by (simp add: step_def)
  ultimately have "c \<notin> stars s' \<union> unknowns s'" by (meson subsetD)
  with Cons.IH [OF rest] show ?case by simp
qed

lemma put_star_body_Success:
  "put_star_body f it cell b s = Some (Success, s') \<longleftrightarrow>
    (cell \<in> stars s \<and> s' = s) \<or>
    (cell \<notin> stars s \<and> cell \<in> unknowns s \<and>
     (\<exists>us ns. units_for b cell = Some us \<and>
        (\<forall>u\<in>set us. count_stars u (s\<lparr>stars := insert cell (stars s), unknowns := unknowns s - {cell}\<rparr>) \<le> S b) \<and>
        neighbors cell (N b) = Inr ns \<and>
        blank_each f (it ns) (s\<lparr>stars := insert cell (stars s), unknowns := unknowns s - {cell}\<rparr>)
          = Some (Success, s')))"
proof (cases "cell \<in> stars s")
  case True
  then show ?thesis by (auto simp: put_star_body_def)
next
  case ns: False
  show ?thesis
  proof (cases "cell \<in> unknowns s")
    case False
    with ns show ?thesis by (simp add: put_star_body_def)
  next
    case True
    show ?thesis
    proof (cases "units_for b cell")
      case None
      with ns True show ?thesis by (simp add: put_star_body_def Let_def)
    next
      case (Some us)
      show ?thesis
      proof (cases "neighbors cell (N b)")
        case (Inl e)
        with ns True Some show ?thesis by (simp add: put_star_body_def Let_def)
      next
        case (Inr nbs)
        with ns True Some show ?thesis
          by (simp add: put_star_body_def Let_def not_less Bex_def Ball_def) (meson not_less)
      qed
    qed
  qed
qed

lemma put_blank_body_Success:
  "put_blank_body f it cell b s = Some (Success, s') \<longleftrightarrow>
    (cell \<notin> unknowns s \<and> s' = s) \<or>
    (cell \<in> unknowns s \<and>
     (\<exists>us. units_for b cell = Some us \<and>
        units_loop f it b us (s\<lparr>unknowns := unknowns s - {cell}\<rparr>) = Some (Success, s')))"
proof (cases "cell \<in> unknowns s")
  case False
  then show ?thesis by (auto simp: put_blank_body_def)
next
  case True
  then show ?thesis by (cases "units_for b cell") (simp_all add: put_blank_body_def Let_def)
qed

lemma put_blank_body_blanks:
  assumes f: "\<And>c s r s'. f c s = Some (r, s') \<Longrightarrow> step s s'"
    and r: "put_blank_body f it cell b s = Some (r, s')"
    and nc: "cell \<notin> stars s"
  shows "cell \<notin> stars s' \<union> unknowns s'"
proof (cases "cell \<in> unknowns s")
  case False
  with r nc show ?thesis by (simp add: put_blank_body_def)
next
  case True
  define s1 where "s1 = s\<lparr>unknowns := unknowns s - {cell}\<rparr>"
  have c1: "cell \<notin> stars s1 \<union> unknowns s1" using nc by (simp add: s1_def)
  have "step s1 s'"
  proof (cases "units_for b cell")
    case None
    with r True show ?thesis by (simp add: put_blank_body_def Let_def s1_def step_refl)
  next
    case (Some us)
    with r True have "units_loop f it b us s1 = Some (r, s')"
      by (simp add: put_blank_body_def Let_def s1_def)
    then show ?thesis by (rule units_loop_step [rotated]) (rule f)
  qed
  then have "stars s' \<union> unknowns s' \<subseteq> stars s1 \<union> unknowns s1" by (simp add: step_def)
  with c1 show ?thesis by (meson subsetD)
qed

lemma put_blank_blanks:
  assumes "put_blank it d c b s = Some (r, s')" "c \<notin> stars s"
  shows "c \<notin> stars s' \<union> unknowns s'"
proof (cases d)
  case 0
  with assms(1) have "put_blank_body (\<lambda>c s'. None) it c b s = Some (r, s')" by simp
  then show ?thesis using assms(2) by (rule put_blank_body_blanks [rotated]) simp
next
  case (Suc d')
  with assms(1) have "put_blank_body (\<lambda>c s'. put_star it d' c b s') it c b s = Some (r, s')" by simp
  then show ?thesis using assms(2) by (rule put_blank_body_blanks [rotated]) (rule put_star_step)
qed

lemma pot_move:
  assumes "finite u" "cell \<in> unknowns s" "cell \<notin> stars s"
  shows "pot u (s\<lparr>stars := insert cell (stars s), unknowns := unknowns s - {cell}\<rparr>) = pot u s"
proof (cases "cell \<in> u")
  case False
  then have "u \<inter> insert cell (stars s) = u \<inter> stars s" "u \<inter> (unknowns s - {cell}) = u \<inter> unknowns s"
    by auto
  then show ?thesis by (simp add: pot_def count_stars_def)
next
  case True
  have a: "u \<inter> insert cell (stars s) = insert cell (u \<inter> stars s)" using True by auto
  have b: "u \<inter> (unknowns s - {cell}) = (u \<inter> unknowns s) - {cell}" by auto
  have c: "cell \<in> u \<inter> unknowns s" using True assms(2) by simp
  have d: "cell \<notin> u \<inter> stars s" using assms(3) by simp
  have "card (insert cell (u \<inter> stars s)) = Suc (card (u \<inter> stars s))"
    using assms(1) d by (simp add: card_insert_disjoint)
  moreover have "card ((u \<inter> unknowns s) - {cell}) = card (u \<inter> unknowns s) - 1"
    using assms(1) c by (simp add: card_Diff_singleton)
  moreover have "card (u \<inter> unknowns s) > 0" using assms(1) c by (auto simp: card_gt_0_iff)
  ultimately show ?thesis by (simp add: pot_def count_stars_def a b)
qed

lemma pot_other:
  assumes "cell \<notin> u"
  shows "pot u (s\<lparr>unknowns := unknowns s - {cell}\<rparr>) = pot u s"
proof -
  have "u \<inter> (unknowns s - {cell}) = u \<inter> unknowns s" using assms by auto
  then show ?thesis by (simp add: pot_def count_stars_def)
qed

lemma put_star_body_G:
  assumes wf: "wf_board b" and en: "enum_ok it"
    and fG: "\<And>c s s'. f c s = Some (Success, s') \<Longrightarrow> G b s s'"
    and fb: "\<And>c s r s'. f c s = Some (r, s') \<Longrightarrow>
      step s s' \<and> (c \<notin> stars s \<longrightarrow> c \<notin> stars s' \<union> unknowns s')"
    and r: "put_star_body f it cell b s = Some (Success, s')"
  shows "G b s s'"
proof (cases "cell \<in> stars s")
  case True
  with r show ?thesis by (simp add: put_star_body_Success G_refl)
next
  case False
  define s1 where "s1 = s\<lparr>stars := insert cell (stars s), unknowns := unknowns s - {cell}\<rparr>"
  from r False obtain us ns where cu: "cell \<in> unknowns s"
    and us: "units_for b cell = Some us"
    and chk: "\<forall>u\<in>set us. count_stars u s1 \<le> S b"
    and nb: "neighbors cell (N b) = Inr ns"
    and loop: "blank_each f (it ns) s1 = Some (Success, s')"
    unfolding put_star_body_Success s1_def by blast
  have st1: "step s s1" using False cu by (auto simp: s1_def step_def)
  have g1: "G b s1 s'" using wf fG loop by (rule blank_each_G)
  have st2: "step s1 s'" using g1 by (simp add: G_def)
  have st: "step s s'" using st1 st2 by (rule step_trans)
  have "good b s s'" if ok: "ok s"
  proof -
    have ok1: "ok s1" using st1 ok by (rule step_ok)
    have gd1: "good b s1 s'" using g1 ok1 by (simp add: G_def)
    have a: "\<forall>c\<in>stars s' - stars s. nbrs c (N b) \<inter> (stars s' \<union> unknowns s') = {}"
    proof
      fix c assume c: "c \<in> stars s' - stars s"
      show "nbrs c (N b) \<inter> (stars s' \<union> unknowns s') = {}"
      proof (cases "c = cell")
        case True
        have "set (it ns) = ns" using en nb by (simp add: enum_ok_set neighbors_finite)
        moreover have "\<forall>c\<in>set (it ns). c \<notin> stars s' \<union> unknowns s'"
          using loop by (rule blank_each_blanks [rotated]) (rule fb)
        ultimately have "ns \<inter> (stars s' \<union> unknowns s') = {}" by blast
        with True nb show ?thesis by (simp add: nbrs_neighbors)
      next
        case False
        with c have "c \<in> stars s' - stars s1" by (simp add: s1_def)
        with gd1 show ?thesis by (simp add: good_def)
      qed
    qed
    have q: "\<forall>u\<in>set (units b). count_stars u s' \<noteq> count_stars u s \<longrightarrow> count_stars u s' \<le> S b"
    proof (intro ballI impI)
      fix u assume u: "u \<in> set (units b)" and ne: "count_stars u s' \<noteq> count_stars u s"
      show "count_stars u s' \<le> S b"
      proof (cases "count_stars u s' = count_stars u s1")
        case False
        with gd1 u show ?thesis by (simp add: good_def)
      next
        case True
        have "cell \<in> u"
        proof (rule ccontr)
          assume "cell \<notin> u"
          then have "u \<inter> insert cell (stars s) = u \<inter> stars s" by auto
          then have "count_stars u s1 = count_stars u s" by (simp add: count_stars_def s1_def)
          with True ne show False by simp
        qed
        with wf u us have "us = filter (\<lambda>u. cell \<in> u) (units b)"
          by (simp add: wf_board_units_for)
        with u \<open>cell \<in> u\<close> have "u \<in> set us" by simp
        with chk True show ?thesis by simp
      qed
    qed
    have p: "\<forall>u\<in>set (units b). pot u s' < pot u s \<longrightarrow> S b \<le> pot u s'"
    proof (intro ballI impI)
      fix u assume u: "u \<in> set (units b)" and lt: "pot u s' < pot u s"
      have "finite u" using wf u by (rule wf_board_finite)
      then have "pot u s1 = pot u s" unfolding s1_def using cu False by (rule pot_move)
      with lt gd1 u show "S b \<le> pot u s'" by (simp add: good_def)
    qed
    from a q p show ?thesis by (simp add: good_def)
  qed
  with st show ?thesis by (simp add: G_def)
qed

lemma put_blank_body_G:
  assumes wf: "wf_board b"
    and fG: "\<And>c s s'. f c s = Some (Success, s') \<Longrightarrow> G b s s'"
    and r: "put_blank_body f it cell b s = Some (Success, s')"
  shows "G b s s'"
proof (cases "cell \<in> unknowns s")
  case False
  with r show ?thesis by (simp add: put_blank_body_Success G_refl)
next
  case True
  define s1 where "s1 = s\<lparr>unknowns := unknowns s - {cell}\<rparr>"
  from r True obtain us where us: "units_for b cell = Some us"
    and loop: "units_loop f it b us s1 = Some (Success, s')"
    unfolding put_blank_body_Success s1_def by blast
  have st1: "step s s1" by (auto simp: s1_def step_def)
  have g1: "G b s1 s'" using wf fG loop by (rule units_loop_G)
  have st2: "step s1 s'" using g1 by (simp add: G_def)
  have st: "step s s'" using st1 st2 by (rule step_trans)
  have "good b s s'" if ok: "ok s"
  proof -
    have ok1: "ok s1" using st1 ok by (rule step_ok)
    have gd1: "good b s1 s'" using g1 ok1 by (simp add: G_def)
    have a: "\<forall>c\<in>stars s' - stars s. nbrs c (N b) \<inter> (stars s' \<union> unknowns s') = {}"
      using gd1 by (simp add: good_def s1_def)
    have q: "\<forall>u\<in>set (units b). count_stars u s' \<noteq> count_stars u s \<longrightarrow> count_stars u s' \<le> S b"
      using gd1 by (simp add: good_def count_stars_def s1_def)
    have p: "\<forall>u\<in>set (units b). pot u s' < pot u s \<longrightarrow> S b \<le> pot u s'"
    proof (intro ballI impI)
      fix u assume u: "u \<in> set (units b)" and lt: "pot u s' < pot u s"
      show "S b \<le> pot u s'"
      proof (cases "cell \<in> u")
        case True
        with wf u us have eq: "us = filter (\<lambda>u. cell \<in> u) (units b)"
          by (simp add: wf_board_units_for)
        then have sub: "set us \<subseteq> set (units b)" by auto
        have "\<forall>u\<in>set us. S b \<le> pot u s'"
          using wf fG loop ok1 sub by (rule units_loop_checked)
        moreover have "u \<in> set us" using eq u True by simp
        ultimately show ?thesis by simp
      next
        case False
        then have "pot u s1 = pot u s" unfolding s1_def by (rule pot_other)
        with lt gd1 u show ?thesis by (simp add: good_def)
      qed
    qed
    from a q p show ?thesis by (simp add: good_def)
  qed
  with st show ?thesis by (simp add: G_def)
qed

lemma put_blank_bstep:
  "put_blank it d c b s = Some (r, s') \<Longrightarrow>
    step s s' \<and> (c \<notin> stars s \<longrightarrow> c \<notin> stars s' \<union> unknowns s')"
  using put_blank_step put_blank_blanks by blast

lemma prop_G:
  assumes wf: "wf_board b" and en: "enum_ok it"
  shows "(\<forall>c s s'. put_star it d c b s = Some (Success, s') \<longrightarrow> G b s s') \<and>
         (\<forall>c s s'. put_blank it d c b s = Some (Success, s') \<longrightarrow> G b s s')"
proof (induction d)
  case 0
  show ?case
  proof (intro conjI allI impI)
    fix c s s'
    assume "put_star it 0 c b s = Some (Success, s')"
    then have "put_star_body (\<lambda>c s'. None) it c b s = Some (Success, s')" by simp
    then show "G b s s'" by (rule put_star_body_G [OF wf en, rotated 2]) simp_all
  next
    fix c s s'
    assume "put_blank it 0 c b s = Some (Success, s')"
    then have "put_blank_body (\<lambda>c s'. None) it c b s = Some (Success, s')" by simp
    then show "G b s s'" by (rule put_blank_body_G [OF wf, rotated]) simp
  qed
next
  case (Suc d)
  show ?case
  proof (intro conjI allI impI)
    fix c s s'
    assume "put_star it (Suc d) c b s = Some (Success, s')"
    then have "put_star_body (\<lambda>c s'. put_blank it d c b s') it c b s = Some (Success, s')" by simp
    then show "G b s s'"
    proof (rule put_star_body_G [OF wf en, rotated 2])
      show "\<And>c s s'. put_blank it d c b s = Some (Success, s') \<Longrightarrow> G b s s'"
        using Suc.IH by blast
      show "\<And>c s r s'. put_blank it d c b s = Some (r, s') \<Longrightarrow>
        step s s' \<and> (c \<notin> stars s \<longrightarrow> c \<notin> stars s' \<union> unknowns s')"
        by (rule put_blank_bstep)
    qed
  next
    fix c s s'
    assume "put_blank it (Suc d) c b s = Some (Success, s')"
    then have "put_blank_body (\<lambda>c s'. put_star it d c b s') it c b s = Some (Success, s')" by simp
    then show "G b s s'"
    proof (rule put_blank_body_G [OF wf, rotated])
      show "\<And>c s s'. put_star it d c b s = Some (Success, s') \<Longrightarrow> G b s s'"
        using Suc.IH by blast
    qed
  qed
qed

lemma put_star_G:
  "wf_board b \<Longrightarrow> enum_ok it \<Longrightarrow> put_star it d c b s = Some (Success, s') \<Longrightarrow> G b s s'"
  using prop_G by blast

lemma put_blank_G:
  "wf_board b \<Longrightarrow> enum_ok it \<Longrightarrow> put_blank it d c b s = Some (Success, s') \<Longrightarrow> G b s s'"
  using prop_G by blast

lemma step_card:
  assumes "step s s'" "finite (unknowns s)" "card (unknowns s) \<le> k"
  shows "finite (unknowns s') \<and> card (unknowns s') \<le> k"
proof -
  have sub: "unknowns s' \<subseteq> unknowns s" using assms(1) by (simp add: step_def)
  then have "finite (unknowns s')" using assms(2) by (rule finite_subset)
  moreover have "card (unknowns s') \<le> card (unknowns s)" using assms(2) sub by (simp add: card_mono)
  ultimately show ?thesis using assms(3) by simp
qed

lemma blank_each_total:
  assumes ft: "\<And>c s. finite (unknowns s) \<Longrightarrow> card (unknowns s) \<le> k \<Longrightarrow> \<exists>p. f c s = Some p"
    and fs: "\<And>c s r s'. f c s = Some (r, s') \<Longrightarrow> step s s'"
  shows "finite (unknowns s) \<Longrightarrow> card (unknowns s) \<le> k \<Longrightarrow> \<exists>p. blank_each f cs s = Some p"
proof (induction cs arbitrary: s)
  case Nil
  show ?case by simp
next
  case (Cons c cs)
  show ?case
  proof (cases "c \<in> stars s")
    case True
    then show ?thesis by simp
  next
    case False
    from ft [OF Cons.prems] obtain r1 s1 where c1: "f c s = Some (r1, s1)" by (metis surj_pair)
    have "finite (unknowns s1) \<and> card (unknowns s1) \<le> k"
      using fs [OF c1] Cons.prems by (rule step_card)
    then have "\<exists>p. blank_each f cs s1 = Some p" using Cons.IH by simp
    with False c1 show ?thesis by (cases r1) simp_all
  qed
qed

lemma star_each_total:
  assumes ft: "\<And>c s. finite (unknowns s) \<Longrightarrow> card (unknowns s) \<le> k \<Longrightarrow> \<exists>p. f c s = Some p"
    and fs: "\<And>c s r s'. f c s = Some (r, s') \<Longrightarrow> step s s'"
  shows "finite (unknowns s) \<Longrightarrow> card (unknowns s) \<le> k \<Longrightarrow> \<exists>p. star_each f cs s = Some p"
proof (induction cs arbitrary: s)
  case Nil
  show ?case by simp
next
  case (Cons c cs)
  from ft [OF Cons.prems] obtain r1 s1 where c1: "f c s = Some (r1, s1)" by (metis surj_pair)
  have "finite (unknowns s1) \<and> card (unknowns s1) \<le> k"
    using fs [OF c1] Cons.prems by (rule step_card)
  then have "\<exists>p. star_each f cs s1 = Some p" using Cons.IH by simp
  with c1 show ?case by (cases r1) simp_all
qed

lemma units_loop_total:
  assumes ft: "\<And>c s. finite (unknowns s) \<Longrightarrow> card (unknowns s) \<le> k \<Longrightarrow> \<exists>p. f c s = Some p"
    and fs: "\<And>c s r s'. f c s = Some (r, s') \<Longrightarrow> step s s'"
  shows "finite (unknowns s) \<Longrightarrow> card (unknowns s) \<le> k \<Longrightarrow> \<exists>p. units_loop f it b us s = Some p"
proof (induction us arbitrary: s)
  case Nil
  show ?case by simp
next
  case (Cons u us)
  have here: "\<exists>p. units_loop f it b us s = Some p" using Cons.IH Cons.prems by simp
  have "\<exists>p. star_each f (it (u \<inter> unknowns s)) s = Some p"
    using ft fs Cons.prems by (rule star_each_total)
  then obtain r1 s1 where c1: "star_each f (it (u \<inter> unknowns s)) s = Some (r1, s1)"
    by (cases "star_each f (it (u \<inter> unknowns s)) s") auto
  have "step s s1" using c1 by (rule star_each_step [rotated]) (rule fs)
  then have "finite (unknowns s1) \<and> card (unknowns s1) \<le> k"
    using Cons.prems by (rule step_card)
  then have "\<exists>p. units_loop f it b us s1 = Some p" using Cons.IH by simp
  with here c1 show ?case by (cases r1) (simp_all add: Let_def)
qed

lemma put_star_body_total:
  assumes ft: "\<And>c s. finite (unknowns s) \<Longrightarrow> card (unknowns s) \<le> k \<Longrightarrow> \<exists>p. f c s = Some p"
    and fs: "\<And>c s r s'. f c s = Some (r, s') \<Longrightarrow> step s s'"
    and fin: "finite (unknowns s)" and le: "card (unknowns s) \<le> Suc k"
  shows "\<exists>p. put_star_body f it cell b s = Some p"
proof (cases "cell \<in> stars s \<or> cell \<notin> unknowns s")
  case True
  then show ?thesis by (auto simp: put_star_body_def)
next
  case False
  define s1 where "s1 = s\<lparr>stars := insert cell (stars s), unknowns := unknowns s - {cell}\<rparr>"
  have "card (unknowns s - {cell}) = card (unknowns s) - 1"
    using fin False by (simp add: card_Diff_singleton)
  then have fin1: "finite (unknowns s1)" and le1: "card (unknowns s1) \<le> k"
    using fin le by (simp_all add: s1_def)
  have "\<exists>p. blank_each f (it ns) s1 = Some p" for ns
    using ft fs fin1 le1 by (rule blank_each_total)
  with False show ?thesis
    by (simp add: put_star_body_def Let_def s1_def split: option.splits sum.splits)
qed

lemma put_blank_body_total:
  assumes ft: "\<And>c s. finite (unknowns s) \<Longrightarrow> card (unknowns s) \<le> k \<Longrightarrow> \<exists>p. f c s = Some p"
    and fs: "\<And>c s r s'. f c s = Some (r, s') \<Longrightarrow> step s s'"
    and fin: "finite (unknowns s)" and le: "card (unknowns s) \<le> Suc k"
  shows "\<exists>p. put_blank_body f it cell b s = Some p"
proof (cases "cell \<notin> unknowns s")
  case True
  then show ?thesis by (simp add: put_blank_body_def)
next
  case False
  define s1 where "s1 = s\<lparr>unknowns := unknowns s - {cell}\<rparr>"
  have "card (unknowns s - {cell}) = card (unknowns s) - 1"
    using fin False by (simp add: card_Diff_singleton)
  then have fin1: "finite (unknowns s1)" and le1: "card (unknowns s1) \<le> k"
    using fin le by (simp_all add: s1_def)
  have "\<exists>p. units_loop f it b us s1 = Some p" for us
    using ft fs fin1 le1 by (rule units_loop_total)
  with False show ?thesis
    by (simp add: put_blank_body_def Let_def s1_def split: option.splits)
qed

lemma put_star_body_empty: "unknowns s = {} \<Longrightarrow> \<exists>p. put_star_body f it cell b s = Some p"
  by (simp add: put_star_body_def)

lemma put_blank_body_empty: "unknowns s = {} \<Longrightarrow> \<exists>p. put_blank_body f it cell b s = Some p"
  by (simp add: put_blank_body_def)

lemma prop_total:
  "(\<forall>c s. finite (unknowns s) \<and> card (unknowns s) \<le> d \<longrightarrow> (\<exists>p. put_star it d c b s = Some p)) \<and>
   (\<forall>c s. finite (unknowns s) \<and> card (unknowns s) \<le> d \<longrightarrow> (\<exists>p. put_blank it d c b s = Some p))"
proof (induction d)
  case 0
  show ?case
  proof (intro conjI allI impI)
    fix c and s :: state
    assume "finite (unknowns s) \<and> card (unknowns s) \<le> 0"
    then have "unknowns s = {}" by auto
    then have "\<exists>p. put_star_body (\<lambda>c s'. None) it c b s = Some p" by (rule put_star_body_empty)
    then show "\<exists>p. put_star it 0 c b s = Some p" by simp
  next
    fix c and s :: state
    assume "finite (unknowns s) \<and> card (unknowns s) \<le> 0"
    then have "unknowns s = {}" by auto
    then have "\<exists>p. put_blank_body (\<lambda>c s'. None) it c b s = Some p" by (rule put_blank_body_empty)
    then show "\<exists>p. put_blank it 0 c b s = Some p" by simp
  qed
next
  case (Suc d)
  show ?case
  proof (intro conjI allI impI)
    fix c and s :: state
    assume a: "finite (unknowns s) \<and> card (unknowns s) \<le> Suc d"
    have "\<exists>p. put_star_body (\<lambda>c s'. put_blank it d c b s') it c b s = Some p"
    proof (rule put_star_body_total)
      show "\<And>c s. finite (unknowns s) \<Longrightarrow> card (unknowns s) \<le> d \<Longrightarrow> \<exists>p. put_blank it d c b s = Some p"
        using Suc.IH by blast
      show "\<And>c s r s'. put_blank it d c b s = Some (r, s') \<Longrightarrow> step s s'"
        by (rule put_blank_step)
    qed (use a in simp_all)
    then show "\<exists>p. put_star it (Suc d) c b s = Some p" by simp
  next
    fix c and s :: state
    assume a: "finite (unknowns s) \<and> card (unknowns s) \<le> Suc d"
    have "\<exists>p. put_blank_body (\<lambda>c s'. put_star it d c b s') it c b s = Some p"
    proof (rule put_blank_body_total)
      show "\<And>c s. finite (unknowns s) \<Longrightarrow> card (unknowns s) \<le> d \<Longrightarrow> \<exists>p. put_star it d c b s = Some p"
        using Suc.IH by blast
      show "\<And>c s r s'. put_star it d c b s = Some (r, s') \<Longrightarrow> step s s'"
        by (rule put_star_step)
    qed (use a in simp_all)
    then show "\<exists>p. put_blank it (Suc d) c b s = Some p" by simp
  qed
qed

lemma put_star_total:
  "finite (unknowns s) \<Longrightarrow> card (unknowns s) \<le> d \<Longrightarrow> \<exists>r s'. put_star it d c b s = Some (r, s')"
  using prop_total [of d it b] by (metis surj_pair)

lemma put_blank_total:
  "finite (unknowns s) \<Longrightarrow> card (unknowns s) \<le> d \<Longrightarrow> \<exists>r s'. put_blank it d c b s = Some (r, s')"
  using prop_total [of d it b] by (metis surj_pair)

lemma filter_le_upt: "n \<le> k \<Longrightarrow> filter (\<lambda>m. m \<le> n) [0..<Suc k] = [0..<Suc n]"
proof (induction k)
  case 0
  then show ?case by simp
next
  case (Suc k)
  have split: "filter (\<lambda>m. m \<le> n) [0..<Suc (Suc k)] =
      filter (\<lambda>m. m \<le> n) [0..<Suc k] @ filter (\<lambda>m. m \<le> n) [Suc k]"
    by (metis filter_append upt_Suc_append zero_le)
  show ?case
  proof (cases "n = Suc k")
    case True
    have "filter (\<lambda>m. m \<le> Suc k) [0..<Suc (Suc k)] = [0..<Suc (Suc k)]"
      by (subst filter_id_conv) auto
    with True show ?thesis by simp
  next
    case False
    with Suc.prems have le: "n \<le> k" by simp
    then have ih: "filter (\<lambda>m. m \<le> n) [0..<Suc k] = [0..<Suc n]" by (rule Suc.IH)
    have "filter (\<lambda>m. m \<le> n) [Suc k] = []" using le by simp
    with split ih show ?thesis by simp
  qed
qed

lemma isqrt_square: "isqrt (n * n) = n"
proof -
  have "(\<lambda>m. m * m \<le> n * n) = (\<lambda>m. m \<le> n)"
    by (rule ext) (metis mult_le_mono nat_le_linear le_antisym mult_le_cancel2 mult_le_cancel1 le_square le_trans nat_mult_le_cancel_disj not_less_eq_eq)
  moreover have "n \<le> n * n" by (cases n) simp_all
  ultimately have "filter (\<lambda>m. m * m \<le> n * n) [0..<Suc (n * n)] = [0..<Suc n]"
    by (simp only: filter_le_upt)
  then show ?thesis by (simp add: isqrt_def)
qed

lemma make_board_square:
  assumes "length (filter (\<lambda>ch. \<not> whitespace ch) picture) = n * n"
  shows "\<exists>b. make_board itc s picture = Inr b"
proof -
  have "isqrt (length (filter (\<lambda>ch. \<not> whitespace ch) picture)) = n"
    using assms by (simp add: isqrt_square)
  then show ?thesis using assms by (simp add: make_board_def Let_def)
qed

lemma make_board_not_square:
  assumes "\<forall>n. length (filter (\<lambda>ch. \<not> whitespace ch) picture) \<noteq> n * n"
  shows "make_board itc s picture = Inl AssertionError"
proof -
  define p where "p = filter (\<lambda>ch. \<not> whitespace ch) picture"
  have "length p \<noteq> isqrt (length p) * isqrt (length p)" using assms by (simp add: p_def)
  then have "int (length p) \<noteq> int (isqrt (length p)) * int (isqrt (length p))"
    by (metis of_nat_eq_iff of_nat_mult)
  then show ?thesis by (simp add: make_board_def Let_def p_def)
qed

text \<open>
  Claim C10. \<^verbatim>\<open>make_board\<close> fails its assertion exactly when the number of
  non-whitespace characters of the picture is not a square; when it is a square a board is
  returned whatever the box labels are, so nothing else is checked.
\<close>

theorem make_board_length_check:
  "((\<forall>n. length (filter (\<lambda>ch. \<not> whitespace ch) picture) \<noteq> n * n)
      \<longrightarrow> make_board itc s picture = Inl AssertionError) \<and>
   ((\<exists>n. length (filter (\<lambda>ch. \<not> whitespace ch) picture) = n * n)
      \<longrightarrow> (\<exists>b. make_board itc s picture = Inr b))"
  using make_board_square make_board_not_square by blast

lemma three_not_square: "Suc (Suc (Suc 0)) \<noteq> n * n"
proof
  assume a: "Suc (Suc (Suc 0)) = n * n"
  then have "n \<le> 3" by (metis le_square numeral_3_eq_3)
  then have "n = 0 \<or> n = 1 \<or> n = 2 \<or> n = 3" by auto
  with a show False by auto
qed

theorem make_board_length_check_witness:
  "make_board ascending 1 ''a b c'' = Inl AssertionError \<and>
   (\<exists>b. make_board ascending 1 ''aa aa'' = Inr b)"
proof -
  have 1: "\<forall>n. length (filter (\<lambda>ch. \<not> whitespace ch) ''a b c'') \<noteq> n * n"
    by (simp add: whitespace_def three_not_square)
  have 2: "\<exists>n. length (filter (\<lambda>ch. \<not> whitespace ch) ''aa aa'') = n * n"
    by (rule exI [of _ 2]) (simp add: whitespace_def)
  from 1 2 make_board_length_check [of "''a b c''" ascending 1]
    make_board_length_check [of "''aa aa''" ascending 1]
  show ?thesis by blast
qed

text \<open>
  Claim C3, as amended. \<^verbatim>\<open>put_star\<close> on a cell that is a star, and \<^verbatim>\<open>put_blank\<close> on
  a cell that is not unknown (a star or a confirmed blank), succeed at once and leave the
  state as it is, at every depth budget. \<^verbatim>\<open>put_star\<close> on a confirmed blank is not
  covered: see the counterexample.
\<close>

theorem propagation_idempotent:
  "(cell \<in> stars s \<longrightarrow> put_star it d cell b s = Some (Success, s)) \<and>
   (cell \<notin> unknowns s \<longrightarrow> put_blank it d cell b s = Some (Success, s))"
  by (cases d) (simp_all add: put_star_body_def put_blank_body_def)

theorem propagation_idempotent_witness:
  "put_star ascending 1 0 (board_1x1 1) \<lparr>st_units = [], stars = {0}, unknowns = {}\<rparr>
     = Some (Success, \<lparr>st_units = [], stars = {0}, unknowns = {}\<rparr>) \<and>
   put_blank ascending 1 0 (board_1x1 1) \<lparr>st_units = [], stars = {0}, unknowns = {}\<rparr>
     = Some (Success, \<lparr>st_units = [], stars = {0}, unknowns = {}\<rparr>) \<and>
   put_blank ascending 1 0 (board_1x1 1) \<lparr>st_units = [], stars = {}, unknowns = {}\<rparr>
     = Some (Success, \<lparr>st_units = [], stars = {}, unknowns = {}\<rparr>)"
  using propagation_idempotent [of 0 "\<lparr>st_units = [], stars = {0}, unknowns = {}\<rparr>" ascending 1 "board_1x1 1"]
    propagation_idempotent [of 0 "\<lparr>st_units = [], stars = {}, unknowns = {}\<rparr>" ascending 1 "board_1x1 1"]
  by simp

text \<open>
  On the 1\<times>1 board, in the state where cell 0 is a confirmed blank (neither a star nor
  unknown), \<^verbatim>\<open>put_star\<close> raises \<^verbatim>\<open>KeyError\<close> at \<^verbatim>\<open>state.unknowns.remove(cell)\<close>.
\<close>

theorem put_star_on_blank_counterexample:
  "put_star ascending 1 0 (board_1x1 1) \<lparr>st_units = [], stars = {}, unknowns = {}\<rparr>
     = Some (Raise KeyError, \<lparr>st_units = [], stars = {}, unknowns = {}\<rparr>)"
  by (simp add: numeral_eq_Suc put_star_body_def)

text \<open>
  Claim C9. Whatever their outcome, \<^verbatim>\<open>put_star\<close> and \<^verbatim>\<open>put_blank\<close> leave the list of
  pending units of the state as it was; the loop at the head of \<^verbatim>\<open>search\<close> is what
  shortens it, and it only drops a prefix and touches no other field.
\<close>

theorem propagation_frame:
  "(put_star it d cell b s = Some (r, s') \<longrightarrow> st_units s' = st_units s) \<and>
   (put_blank it d cell b s = Some (r, s') \<longrightarrow> st_units s' = st_units s) \<and>
   (\<exists>k. drop_filled b s = s\<lparr>st_units := drop k (st_units s)\<rparr>)"
proof (intro conjI impI)
  assume "put_star it d cell b s = Some (r, s')"
  then have "step s s'" by (rule put_star_step)
  then show "st_units s' = st_units s" by (simp add: step_def)
next
  assume "put_blank it d cell b s = Some (r, s')"
  then have "step s s'" by (rule put_blank_step)
  then show "st_units s' = st_units s" by (simp add: step_def)
next
  show "\<exists>k. drop_filled b s = s\<lparr>st_units := drop k (st_units s)\<rparr>"
    unfolding drop_filled_def dropWhile_eq_drop by blast
qed

text \<open>
  Claim C7. In a state whose unknown cells are cells of the board, \<^verbatim>\<open>put_star\<close> and
  \<^verbatim>\<open>put_blank\<close> return (a state, a failure or an exception) within any budget of at
  least \<open>N\<^sup>2\<close> levels of recursive calls opened below the call that was made: the
  recursion ends by itself, and it never nests more recursive calls than the board has
  cells.
\<close>

theorem propagation_terminates:
  assumes "unknowns s \<subseteq> {0..<(N b) ^ 2}" "nat ((N b) ^ 2) \<le> d"
  shows "(\<exists>r s'. put_star it d cell b s = Some (r, s')) \<and>
         (\<exists>r s'. put_blank it d cell b s = Some (r, s'))"
proof -
  have fin: "finite (unknowns s)" using assms(1) by (rule finite_subset) simp
  have "card (unknowns s) \<le> card {0..<(N b) ^ 2}" using assms(1) by (intro card_mono) simp_all
  then have "card (unknowns s) \<le> d" using assms(2) by simp
  with fin show ?thesis by (simp add: put_star_total put_blank_total)
qed

theorem propagation_frame_witness:
  "put_star ascending 1 0 (board_1x1 1) \<lparr>st_units = [{0}, {0}, {0}], stars = {}, unknowns = {0}\<rparr>
     = Some (Success, \<lparr>st_units = [{0}, {0}, {0}], stars = {0}, unknowns = {}\<rparr>) \<and>
   put_blank ascending 1 0 (board_1x1 1) \<lparr>st_units = [{0}, {0}, {0}], stars = {}, unknowns = {0}\<rparr>
     = Some (Failure, \<lparr>st_units = [{0}, {0}, {0}], stars = {}, unknowns = {}\<rparr>) \<and>
   st_units \<lparr>st_units = [{0}, {0}, {0}], stars = {0}, unknowns = {}\<rparr> = [{0}, {0}, {0}] \<and>
   (\<exists>k. drop_filled (board_1x1 1) \<lparr>st_units = [{0}, {0}, {0}], stars = {0}, unknowns = {}\<rparr>
      = \<lparr>st_units = drop k [{0}, {0}, {0}], stars = {0}, unknowns = {}\<rparr>)"
proof -
  let ?s = "\<lparr>st_units = [{0}, {0}, {0}], stars = {}, unknowns = {0}\<rparr>"
  let ?t = "\<lparr>st_units = [{0}, {0}, {0}], stars = {0}, unknowns = {}\<rparr>"
  have 1: "put_star ascending 1 0 (board_1x1 1) ?s = Some (Success, ?t)"
    by (simp add: numeral_eq_Suc put_star_body_def board_1x1_def count_stars_def
        neighbors_def ascending_def)
  have 2: "put_blank ascending 1 0 (board_1x1 1) ?s
      = Some (Failure, \<lparr>st_units = [{0}, {0}, {0}], stars = {}, unknowns = {}\<rparr>)"
    by (simp add: numeral_eq_Suc put_blank_body_def board_1x1_def count_stars_def)
  from 1 2 propagation_frame [of ascending 1 0 "board_1x1 1" ?s Success ?t]
    propagation_frame [of ascending 1 0 "board_1x1 1" ?t Success ?t]
  show ?thesis by simp
qed

lemma wf_state_step: "step s s' \<Longrightarrow> wf_state b s \<Longrightarrow> wf_state b s'"
  unfolding wf_state_def using step_ok by (meson step_def subset_trans)

lemma star_each_Cons_cases:
  assumes "star_each f (c # cs) s = Some (r, s')"
  obtains r1 s1 where "f c s = Some (r1, s1)"
    "r1 = Success \<Longrightarrow> star_each f cs s1 = Some (r, s')"
    "r1 \<noteq> Success \<Longrightarrow> r = r1 \<and> s' = s1"
proof (cases "f c s")
  case None
  with assms show ?thesis by simp
next
  case (Some p)
  obtain r1 s1 where p: "p = (r1, s1)" by (cases p)
  show ?thesis
  proof (rule that [of r1 s1])
    show "f c s = Some (r1, s1)" using Some p by simp
    show "r1 = Success \<Longrightarrow> star_each f cs s1 = Some (r, s')" using assms Some p by simp
    show "r1 \<noteq> Success \<Longrightarrow> r = r1 \<and> s' = s1" using assms Some p by (cases r1) simp_all
  qed
qed

lemma blank_each_Cons_cases:
  assumes "blank_each f (c # cs) s = Some (r, s')" "c \<notin> stars s"
  obtains r1 s1 where "f c s = Some (r1, s1)"
    "r1 = Success \<Longrightarrow> blank_each f cs s1 = Some (r, s')"
    "r1 \<noteq> Success \<Longrightarrow> r = r1 \<and> s' = s1"
proof (cases "f c s")
  case None
  with assms show ?thesis by simp
next
  case (Some p)
  obtain r1 s1 where p: "p = (r1, s1)" by (cases p)
  show ?thesis
  proof (rule that [of r1 s1])
    show "f c s = Some (r1, s1)" using Some p by simp
    show "r1 = Success \<Longrightarrow> blank_each f cs s1 = Some (r, s')" using assms Some p by simp
    show "r1 \<noteq> Success \<Longrightarrow> r = r1 \<and> s' = s1" using assms Some p by (cases r1) simp_all
  qed
qed

lemma units_loop_Cons_cases:
  assumes "units_loop f it b (u # us) s = Some (r, s')" "pot u s = S b"
  obtains r1 s1 where "star_each f (it (u \<inter> unknowns s)) s = Some (r1, s1)"
    "r1 = Success \<Longrightarrow> units_loop f it b us s1 = Some (r, s')"
    "r1 \<noteq> Success \<Longrightarrow> r = r1 \<and> s' = s1"
proof (cases "star_each f (it (u \<inter> unknowns s)) s")
  case None
  with assms show ?thesis by (simp add: Let_def pot_def)
next
  case (Some p)
  obtain r1 s1 where p: "p = (r1, s1)" by (cases p)
  show ?thesis
  proof (rule that [of r1 s1])
    show "star_each f (it (u \<inter> unknowns s)) s = Some (r1, s1)" using Some p by simp
    show "r1 = Success \<Longrightarrow> units_loop f it b us s1 = Some (r, s')"
      using assms Some p by (simp add: Let_def pot_def)
    show "r1 \<noteq> Success \<Longrightarrow> r = r1 \<and> s' = s1"
      using assms Some p by (cases r1) (simp_all add: Let_def pot_def)
  qed
qed

lemma star_each_nr:
  assumes wf: "wf_board b"
    and fnr: "\<And>c s r s'. wf_state b s \<Longrightarrow> c \<in> stars s \<union> unknowns s \<Longrightarrow>
       f c s = Some (r, s') \<Longrightarrow> \<forall>e. r \<noteq> Raise e"
    and fG: "\<And>c s s'. f c s = Some (Success, s') \<Longrightarrow> G b s s'"
    and u: "u \<in> set (units b)"
  shows "star_each f cs s = Some (r, s') \<Longrightarrow> wf_state b s \<Longrightarrow> pot u s \<le> S b \<Longrightarrow>
    set cs \<subseteq> u \<inter> (stars s \<union> unknowns s) \<Longrightarrow> \<forall>e. r \<noteq> Raise e"
proof (induction cs arbitrary: s)
  case Nil
  then show ?case by simp
next
  case (Cons c cs)
  from Cons.prems(1) obtain r1 s1 where c1: "f c s = Some (r1, s1)"
    and suc: "r1 = Success \<Longrightarrow> star_each f cs s1 = Some (r, s')"
    and oth: "r1 \<noteq> Success \<Longrightarrow> r = r1 \<and> s' = s1"
    by (rule star_each_Cons_cases) blast
  have cin: "c \<in> stars s \<union> unknowns s" using Cons.prems(4) by simp
  have nr1: "\<forall>e. r1 \<noteq> Raise e" using Cons.prems(2) cin c1 by (rule fnr)
  show ?case
  proof (cases "r1 = Success")
    case False
    with oth nr1 show ?thesis by simp
  next
    case True
    have g: "G b s s1" using c1 True by (simp add: fG)
    have oks: "ok s" using Cons.prems(2) by (simp add: wf_state_def)
    have st: "step s s1" using g by (simp add: G_def)
    have gd: "good b s s1" using g oks by (simp add: G_def)
    have fin: "finite u" using wf u by (rule wf_board_finite)
    have "\<not> pot u s1 < pot u s"
    proof
      assume lt: "pot u s1 < pot u s"
      with gd u have "S b \<le> pot u s1" by (simp add: good_def)
      with lt Cons.prems(3) show False by simp
    qed
    then have le: "pot u s \<le> pot u s1" by simp
    have same: "u \<inter> (stars s1 \<union> unknowns s1) = u \<inter> (stars s \<union> unknowns s)"
      using fin oks st le by (rule pot_same)
    have "pot u s1 \<le> pot u s" using fin oks st by (rule pot_mono)
    then have p1: "pot u s1 \<le> S b" using Cons.prems(3) by simp
    have w1: "wf_state b s1" using st Cons.prems(2) by (rule wf_state_step)
    have sub: "set cs \<subseteq> u \<inter> (stars s1 \<union> unknowns s1)" using Cons.prems(4) same by simp
    from Cons.IH [OF suc [OF True] w1 p1 sub] show ?thesis .
  qed
qed

lemma units_loop_nr:
  assumes wf: "wf_board b" and en: "enum_ok it"
    and fnr: "\<And>c s r s'. wf_state b s \<Longrightarrow> c \<in> stars s \<union> unknowns s \<Longrightarrow>
       f c s = Some (r, s') \<Longrightarrow> \<forall>e. r \<noteq> Raise e"
    and fG: "\<And>c s s'. f c s = Some (Success, s') \<Longrightarrow> G b s s'"
  shows "units_loop f it b us s = Some (r, s') \<Longrightarrow> wf_state b s \<Longrightarrow>
    set us \<subseteq> set (units b) \<Longrightarrow> \<forall>e. r \<noteq> Raise e"
proof (induction us arbitrary: s)
  case Nil
  then show ?case by simp
next
  case (Cons u us)
  have u: "u \<in> set (units b)" and sub: "set us \<subseteq> set (units b)" using Cons.prems(3) by simp_all
  have fin: "finite u" using wf u by (rule wf_board_finite)
  consider (less) "pot u s < S b" | (eq) "pot u s = S b" | (more) "pot u s > S b" by linarith
  then show ?case
  proof cases
    case less
    with Cons.prems(1) show ?thesis by (simp add: Let_def pot_def)
  next
    case more
    with Cons.prems(1) have "units_loop f it b us s = Some (r, s')" by (simp add: Let_def pot_def)
    from Cons.IH [OF this Cons.prems(2) sub] show ?thesis .
  next
    case eq
    from Cons.prems(1) eq obtain r1 s1 where
      c1: "star_each f (it (u \<inter> unknowns s)) s = Some (r1, s1)"
      and suc: "r1 = Success \<Longrightarrow> units_loop f it b us s1 = Some (r, s')"
      and oth: "r1 \<noteq> Success \<Longrightarrow> r = r1 \<and> s' = s1"
      by (rule units_loop_Cons_cases) blast
    have "set (it (u \<inter> unknowns s)) = u \<inter> unknowns s" using en fin by (simp add: enum_ok_set)
    then have cs: "set (it (u \<inter> unknowns s)) \<subseteq> u \<inter> (stars s \<union> unknowns s)" by auto
    have le: "pot u s \<le> S b" using eq by simp
    have nr1: "\<forall>e. r1 \<noteq> Raise e"
      using wf fnr fG u c1 Cons.prems(2) le cs by (rule star_each_nr)
    show ?thesis
    proof (cases "r1 = Success")
      case False
      with oth nr1 show ?thesis by simp
    next
      case True
      have "G b s s1" using wf fG c1 [unfolded True] by (rule star_each_G)
      then have "step s s1" by (simp add: G_def)
      then have w1: "wf_state b s1" using Cons.prems(2) by (rule wf_state_step)
      from Cons.IH [OF suc [OF True] w1 sub] show ?thesis .
    qed
  qed
qed

lemma blank_each_nr:
  assumes fnr: "\<And>c s r s'. wf_state b s \<Longrightarrow> f c s = Some (r, s') \<Longrightarrow> \<forall>e. r \<noteq> Raise e"
    and fs: "\<And>c s r s'. f c s = Some (r, s') \<Longrightarrow> step s s'"
  shows "blank_each f cs s = Some (r, s') \<Longrightarrow> wf_state b s \<Longrightarrow> \<forall>e. r \<noteq> Raise e"
proof (induction cs arbitrary: s)
  case Nil
  then show ?case by simp
next
  case (Cons c cs)
  show ?case
  proof (cases "c \<in> stars s")
    case True
    with Cons.prems(1) show ?thesis by simp
  next
    case False
    with Cons.prems(1) obtain r1 s1 where c1: "f c s = Some (r1, s1)"
      and suc: "r1 = Success \<Longrightarrow> blank_each f cs s1 = Some (r, s')"
      and oth: "r1 \<noteq> Success \<Longrightarrow> r = r1 \<and> s' = s1"
      by (rule blank_each_Cons_cases) blast
    have nr1: "\<forall>e. r1 \<noteq> Raise e" using Cons.prems(2) c1 by (rule fnr)
    show ?thesis
    proof (cases "r1 = Success")
      case False
      with oth nr1 show ?thesis by simp
    next
      case True
      have "step s s1" using c1 by (rule fs)
      then have w1: "wf_state b s1" using Cons.prems(2) by (rule wf_state_step)
      from Cons.IH [OF suc [OF True] w1] show ?thesis .
    qed
  qed
qed

lemma neighbors_Inr: "n \<noteq> 0 \<Longrightarrow> \<exists>ns. neighbors cell n = Inr ns"
  by (simp add: neighbors_def Let_def)

lemma wf_state_cell:
  assumes "wf_board b" "wf_state b s" "cell \<in> stars s \<union> unknowns s"
  shows "units_for b cell = Some (filter (\<lambda>u. cell \<in> u) (units b)) \<and> N b \<noteq> 0"
proof -
  from assms(2,3) have "cell \<in> \<Union>(set (units b))" unfolding wf_state_def by (meson subsetD)
  then obtain u where u: "u \<in> set (units b)" "cell \<in> u" by blast
  then have "units_for b cell = Some (filter (\<lambda>u. cell \<in> u) (units b))"
    using assms(1) by (simp add: wf_board_units_for)
  moreover have "units b \<noteq> []" using u by auto
  then have "N b \<noteq> 0" using assms(1) by (auto simp: wf_board_def)
  ultimately show ?thesis by simp
qed

lemma put_star_body_nr:
  assumes wf: "wf_board b"
    and fnr: "\<And>c s r s'. wf_state b s \<Longrightarrow> f c s = Some (r, s') \<Longrightarrow> \<forall>e. r \<noteq> Raise e"
    and fs: "\<And>c s r s'. f c s = Some (r, s') \<Longrightarrow> step s s'"
    and ws: "wf_state b s" and cin: "cell \<in> stars s \<union> unknowns s"
    and r: "put_star_body f it cell b s = Some (r, s')"
  shows "\<forall>e. r \<noteq> Raise e"
proof (cases "cell \<in> stars s")
  case True
  with r show ?thesis by (simp add: put_star_body_def)
next
  case False
  with cin have cu: "cell \<in> unknowns s" by simp
  define s1 where "s1 = s\<lparr>stars := insert cell (stars s), unknowns := unknowns s - {cell}\<rparr>"
  have st1: "step s s1" using False cu by (auto simp: s1_def step_def)
  have w1: "wf_state b s1" using st1 ws by (rule wf_state_step)
  from wf_state_cell [OF wf ws cin] obtain us ns where us: "units_for b cell = Some us"
    and ns: "neighbors cell (N b) = Inr ns"
    using neighbors_Inr by blast
  show ?thesis
  proof (cases "\<exists>u\<in>set us. count_stars u s1 > S b")
    case True
    with r False cu us show ?thesis by (simp add: put_star_body_def Let_def s1_def)
  next
    case nochk: False
    with r False cu us ns have "blank_each f (it ns) s1 = Some (r, s')"
      by (simp add: put_star_body_def Let_def s1_def)
    with fnr fs show ?thesis using w1 by (rule blank_each_nr)
  qed
qed

lemma put_blank_body_nr:
  assumes wf: "wf_board b" and en: "enum_ok it"
    and fnr: "\<And>c s r s'. wf_state b s \<Longrightarrow> c \<in> stars s \<union> unknowns s \<Longrightarrow>
       f c s = Some (r, s') \<Longrightarrow> \<forall>e. r \<noteq> Raise e"
    and fG: "\<And>c s s'. f c s = Some (Success, s') \<Longrightarrow> G b s s'"
    and ws: "wf_state b s"
    and r: "put_blank_body f it cell b s = Some (r, s')"
  shows "\<forall>e. r \<noteq> Raise e"
proof (cases "cell \<in> unknowns s")
  case False
  with r show ?thesis by (simp add: put_blank_body_def)
next
  case True
  define s1 where "s1 = s\<lparr>unknowns := unknowns s - {cell}\<rparr>"
  have st1: "step s s1" by (auto simp: s1_def step_def)
  have w1: "wf_state b s1" using st1 ws by (rule wf_state_step)
  have "cell \<in> stars s \<union> unknowns s" using True by simp
  from wf_state_cell [OF wf ws this]
  have us: "units_for b cell = Some (filter (\<lambda>u. cell \<in> u) (units b))" by simp
  have sub: "set (filter (\<lambda>u. cell \<in> u) (units b)) \<subseteq> set (units b)" by auto
  from r True us have "units_loop f it b (filter (\<lambda>u. cell \<in> u) (units b)) s1 = Some (r, s')"
    by (simp add: put_blank_body_def Let_def s1_def)
  with wf en fnr fG show ?thesis using w1 sub by (rule units_loop_nr)
qed

lemma prop_nr:
  assumes wf: "wf_board b" and en: "enum_ok it"
  shows "(\<forall>c s r s'. wf_state b s \<and> c \<in> stars s \<union> unknowns s \<and>
            put_star it d c b s = Some (r, s') \<longrightarrow> (\<forall>e. r \<noteq> Raise e)) \<and>
         (\<forall>c s r s'. wf_state b s \<and> put_blank it d c b s = Some (r, s') \<longrightarrow> (\<forall>e. r \<noteq> Raise e))"
proof (induction d)
  case 0
  have f1: "\<And>c s r s'. wf_state b s \<Longrightarrow> (None :: result) = Some (r, s') \<Longrightarrow> \<forall>e. r \<noteq> Raise e"
    by simp
  have f2: "\<And>c s r s'. (None :: result) = Some (r, s') \<Longrightarrow> step s s'" by simp
  have f3: "\<And>c s r s'. wf_state b s \<Longrightarrow> c \<in> stars s \<union> unknowns s \<Longrightarrow>
      (None :: result) = Some (r, s') \<Longrightarrow> \<forall>e. r \<noteq> Raise e" by simp
  have f4: "\<And>c s s'. (None :: result) = Some (Success, s') \<Longrightarrow> G b s s'" by simp
  show ?case
  proof (intro conjI allI impI)
    fix c s r s' e
    assume a: "wf_state b s \<and> c \<in> stars s \<union> unknowns s \<and> put_star it 0 c b s = Some (r, s')"
    then have ws: "wf_state b s" and cin: "c \<in> stars s \<union> unknowns s"
      and r: "put_star_body (\<lambda>c s'. None) it c b s = Some (r, s')" by simp_all
    from wf f1 f2 ws cin r have "\<forall>e. r \<noteq> Raise e" by (rule put_star_body_nr)
    then show "r \<noteq> Raise e" by simp
  next
    fix c s r s' e
    assume a: "wf_state b s \<and> put_blank it 0 c b s = Some (r, s')"
    then have ws: "wf_state b s"
      and r: "put_blank_body (\<lambda>c s'. None) it c b s = Some (r, s')" by simp_all
    from wf en f3 f4 ws r have "\<forall>e. r \<noteq> Raise e" by (rule put_blank_body_nr)
    then show "r \<noteq> Raise e" by simp
  qed
next
  case (Suc d)
  have f1: "\<And>c s r s'. wf_state b s \<Longrightarrow> put_blank it d c b s = Some (r, s') \<Longrightarrow> \<forall>e. r \<noteq> Raise e"
    using Suc.IH by blast
  have f2: "\<And>c s r s'. put_blank it d c b s = Some (r, s') \<Longrightarrow> step s s'"
    by (rule put_blank_step)
  have f3: "\<And>c s r s'. wf_state b s \<Longrightarrow> c \<in> stars s \<union> unknowns s \<Longrightarrow>
      put_star it d c b s = Some (r, s') \<Longrightarrow> \<forall>e. r \<noteq> Raise e"
    using Suc.IH by blast
  have f4: "\<And>c s s'. put_star it d c b s = Some (Success, s') \<Longrightarrow> G b s s'"
    using wf en by (rule put_star_G)
  show ?case
  proof (intro conjI allI impI)
    fix c s r s' e
    assume a: "wf_state b s \<and> c \<in> stars s \<union> unknowns s \<and> put_star it (Suc d) c b s = Some (r, s')"
    then have ws: "wf_state b s" and cin: "c \<in> stars s \<union> unknowns s"
      and r: "put_star_body (\<lambda>c s'. put_blank it d c b s') it c b s = Some (r, s')" by simp_all
    from wf f1 f2 ws cin r have "\<forall>e. r \<noteq> Raise e" by (rule put_star_body_nr)
    then show "r \<noteq> Raise e" by simp
  next
    fix c s r s' e
    assume a: "wf_state b s \<and> put_blank it (Suc d) c b s = Some (r, s')"
    then have ws: "wf_state b s"
      and r: "put_blank_body (\<lambda>c s'. put_star it d c b s') it c b s = Some (r, s')" by simp_all
    from wf en f3 f4 ws r have "\<forall>e. r \<noteq> Raise e" by (rule put_blank_body_nr)
    then show "r \<noteq> Raise e" by simp
  qed
qed

lemma put_star_nr:
  assumes "wf_board b" "enum_ok it" "wf_state b s" "c \<in> stars s \<union> unknowns s"
    "put_star it d c b s = Some (r, s')"
  shows "r \<noteq> Raise e"
proof -
  from prop_nr [OF assms(1,2), of d]
  have "\<And>c s r s'. wf_state b s \<Longrightarrow> c \<in> stars s \<union> unknowns s \<Longrightarrow>
      put_star it d c b s = Some (r, s') \<Longrightarrow> \<forall>e. r \<noteq> Raise e" by blast
  from this [OF assms(3,4,5)] show ?thesis by simp
qed

lemma put_blank_nr:
  assumes "wf_board b" "enum_ok it" "wf_state b s" "put_blank it d c b s = Some (r, s')"
  shows "r \<noteq> Raise e"
proof -
  from prop_nr [OF assms(1,2), of d]
  have "\<And>c s r s'. wf_state b s \<Longrightarrow> put_blank it d c b s = Some (r, s') \<Longrightarrow> \<forall>e. r \<noteq> Raise e"
    by blast
  from this [OF assms(3,4)] show ?thesis by simp
qed

lemma copy_state_id: "copy_state s = s"
  by (simp add: copy_state_def)

lemma count_stars_mono:
  assumes "finite u" "step s s'"
  shows "count_stars u s \<le> count_stars u s'"
proof -
  have "u \<inter> stars s \<subseteq> u \<inter> stars s'" using assms(2) by (auto simp: step_def)
  then have "card (u \<inter> stars s) \<le> card (u \<inter> stars s')" using assms(1) by (intro card_mono) auto
  then show ?thesis by (simp add: count_stars_def)
qed

lemma sinv_G:
  assumes wf: "wf_board b" and inv: "sinv b s" and g: "G b s s'"
  shows "sinv b s'"
proof -
  have oks: "ok s" using inv by (simp add: sinv_def)
  have st: "step s s'" and gd: "good b s s'" using g oks by (simp_all add: G_def)
  have 1: "ok s'" using st oks by (rule step_ok)
  have sub: "stars s' \<union> unknowns s' \<subseteq> stars s \<union> unknowns s" using st by (simp add: step_def)
  have "stars s \<union> unknowns s \<subseteq> {0..<(N b) ^ 2}" using inv by (simp add: sinv_def)
  with sub have 2: "stars s' \<union> unknowns s' \<subseteq> {0..<(N b) ^ 2}" by (rule subset_trans)
  have 3: "adj b s'" unfolding adj_def
  proof
    fix c assume c: "c \<in> stars s'"
    show "nbrs c (N b) \<inter> (stars s' \<union> unknowns s') = {}"
    proof (cases "c \<in> stars s")
      case True
      with inv have "nbrs c (N b) \<inter> (stars s \<union> unknowns s) = {}" by (simp add: sinv_def adj_def)
      with sub show ?thesis by blast
    next
      case False
      with c gd show ?thesis by (simp add: good_def)
    qed
  qed
  have 4: "\<forall>u\<in>set (units b). u \<notin> set (st_units s') \<longrightarrow> count_stars u s' = S b"
  proof (intro ballI impI)
    fix u assume u: "u \<in> set (units b)" and nu: "u \<notin> set (st_units s')"
    have "st_units s' = st_units s" using st by (simp add: step_def)
    with nu u inv have eq: "count_stars u s = S b" by (simp add: sinv_def)
    have fin: "finite u" using wf u by (rule wf_board_finite)
    have le: "count_stars u s \<le> count_stars u s'" using fin st by (rule count_stars_mono)
    show "count_stars u s' = S b"
    proof (cases "count_stars u s' = count_stars u s")
      case True
      with eq show ?thesis by simp
    next
      case False
      with gd u have "count_stars u s' \<le> S b" by (simp add: good_def)
      with le eq show ?thesis by simp
    qed
  qed
  from 1 2 3 4 show ?thesis by (simp add: sinv_def)
qed

lemma sinv_drop_filled:
  assumes "sinv b s"
  shows "sinv b (drop_filled b s)"
proof -
  let ?P = "\<lambda>u. count_stars u s = S b"
  have "count_stars u s = S b"
    if u: "u \<in> set (units b)" and nu: "u \<notin> set (dropWhile ?P (st_units s))" for u
  proof (cases "u \<in> set (st_units s)")
    case False
    with u assms show ?thesis by (simp add: sinv_def)
  next
    case True
    have "set (st_units s) = set (takeWhile ?P (st_units s)) \<union> set (dropWhile ?P (st_units s))"
      by (metis set_append takeWhile_dropWhile_id)
    with True nu have "u \<in> set (takeWhile ?P (st_units s))" by simp
    then show ?thesis by (rule set_takeWhileD [THEN conjunct2])
  qed
  then show ?thesis using assms
    by (simp add: sinv_def drop_filled_def ok_def adj_def count_stars_def)
qed

lemma sinv_initial: "sinv b (initial_state b)"
  by (simp add: sinv_def initial_state_def ok_def adj_def)

lemma sinv_solution:
  assumes "sinv b s" "st_units s = []"
  shows "is_solution b (stars s) = Inr True"
proof -
  have u: "\<forall>unit\<in>set (units b). int (card (stars s \<inter> unit)) = S b"
    using assms by (simp add: sinv_def count_stars_def Int_commute)
  have a: "\<forall>c1\<in>stars s. \<forall>c2\<in>stars s. c1 \<notin> nbrs c2 (N b)"
    using assms(1) unfolding sinv_def adj_def by blast
  have n: "N b \<noteq> 0" if "stars s \<noteq> {}"
  proof
    assume "N b = 0"
    moreover have "stars s \<subseteq> {0..<(N b) ^ 2}" using assms(1) by (simp add: sinv_def)
    ultimately show False using that by simp
  qed
  from u a n show ?thesis by (simp add: is_solution_def)
qed

lemma guesses_Cons_cases:
  assumes "guesses f g (c # cs) s = Some (ys, e)"
  obtains (raise) x gs where "f c (copy_state s) = Some (Raise x, gs)" "ys = []" "e = Some x"
  | (failure) gs where "f c (copy_state s) = Some (Failure, gs)" "guesses f g cs s = Some (ys, e)"
  | (stop) gs x where "f c (copy_state s) = Some (Success, gs)" "g gs = Some (ys, Some x)" "e = Some x"
  | (continue) gs ys1 ys2 where "f c (copy_state s) = Some (Success, gs)" "g gs = Some (ys1, None)"
      "guesses f g cs s = Some (ys2, e)" "ys = ys1 @ ys2"
proof (cases "f c (copy_state s)")
  case None
  with assms show ?thesis by simp
next
  case (Some p)
  obtain r gs where p: "p = (r, gs)" by (cases p)
  have fc: "f c (copy_state s) = Some (r, gs)" using Some p by simp
  show ?thesis
  proof (cases r)
    case (Raise x)
    have "ys = []" "e = Some x" using assms fc Raise by simp_all
    with fc Raise show ?thesis by (intro raise [of x gs]) simp_all
  next
    case Failure
    have "guesses f g cs s = Some (ys, e)" using assms fc Failure by simp
    with fc Failure show ?thesis by (intro failure [of gs]) simp_all
  next
    case Success
    show ?thesis
    proof (cases "g gs")
      case None
      with assms fc Success show ?thesis by simp
    next
      case gsome: (Some q)
      obtain ys1 e1 where q: "q = (ys1, e1)" by (cases q)
      have gg: "g gs = Some (ys1, e1)" using gsome q by simp
      show ?thesis
      proof (cases e1)
        case (Some x)
        have "ys = ys1" "e = Some x" using assms fc Success gg Some by simp_all
        with fc Success gg Some show ?thesis by (intro stop [of gs x]) simp_all
      next
        case None
        show ?thesis
        proof (cases "guesses f g cs s")
          case gnone: None
          with assms fc Success gg None show ?thesis by simp
        next
          case (Some w)
          obtain ys2 e2 where w: "w = (ys2, e2)" by (cases w)
          have "ys = ys1 @ ys2" "e = e2" using assms fc Success gg None Some w by simp_all
          with fc Success gg None Some w show ?thesis by (intro continue [of gs ys1 ys2]) simp_all
        qed
      qed
    qed
  qed
qed

lemma guesses_inv:
  assumes f: "\<And>c g'. f c (copy_state s) = Some (Success, g') \<Longrightarrow> P g'"
    and g: "\<And>g' ys e. P g' \<Longrightarrow> g g' = Some (ys, e) \<Longrightarrow> \<forall>y\<in>set ys. Q y"
  shows "guesses f g cs s = Some (ys, e) \<Longrightarrow> \<forall>y\<in>set ys. Q y"
proof (induction cs arbitrary: ys e)
  case Nil
  then show ?case by simp
next
  case (Cons c cs)
  from Cons.prems show ?case
  proof (cases rule: guesses_Cons_cases)
    case (raise x gs)
    then show ?thesis by simp
  next
    case (failure gs)
    then show ?thesis using Cons.IH by blast
  next
    case (stop gs x)
    then show ?thesis using f g by blast
  next
    case (continue gs ys1 ys2)
    have "\<forall>y\<in>set ys1. Q y" using continue f g by blast
    moreover have "\<forall>y\<in>set ys2. Q y" using continue Cons.IH by blast
    ultimately show ?thesis using continue by auto
  qed
qed

lemma search_body_inv:
  assumes wf: "wf_board b" and en: "enum_ok it"
    and f: "\<And>c s s'. f c s = Some (Success, s') \<Longrightarrow> G b s s'"
    and g: "\<And>g' ys e. sinv b g' \<Longrightarrow> g g' = Some (ys, e) \<Longrightarrow> \<forall>y\<in>set ys. sinv b y \<and> st_units y = []"
    and inv: "sinv b s"
    and r: "search_body f g it b s = Some (ys, e)"
  shows "\<forall>y\<in>set ys. sinv b y \<and> st_units y = []"
proof -
  define s0 where "s0 = drop_filled b s"
  have inv0: "sinv b s0" unfolding s0_def using inv by (rule sinv_drop_filled)
  show ?thesis
  proof (cases "st_units s0")
    case Nil
    with r have "ys = [s0]" by (simp add: search_body_def s0_def Let_def)
    with inv0 Nil show ?thesis by simp
  next
    case (Cons u us)
    with r have gs: "guesses f g (it (u \<inter> unknowns s0)) s0 = Some (ys, e)"
      by (simp add: search_body_def s0_def Let_def)
    have fP: "\<And>c g'. f c (copy_state s0) = Some (Success, g') \<Longrightarrow> sinv b g'"
      using wf inv0 f by (simp add: copy_state_id sinv_G)
    from fP g gs show ?thesis by (rule guesses_inv)
  qed
qed

lemma search_inv:
  assumes wf: "wf_board b" and en: "enum_ok it"
  shows "\<forall>s ys e. sinv b s \<and> search it d b s = Some (ys, e) \<longrightarrow>
    (\<forall>y\<in>set ys. sinv b y \<and> st_units y = [])"
proof (induction d)
  case 0
  have f: "\<And>c s s'. put_star it 0 c b s = Some (Success, s') \<Longrightarrow> G b s s'"
    using wf en by (rule put_star_G)
  have g: "\<And>g' ys e. sinv b g' \<Longrightarrow> (None :: yields) = Some (ys, e) \<Longrightarrow>
      \<forall>y\<in>set ys. sinv b y \<and> st_units y = []" by simp
  show ?case
  proof (intro allI impI)
    fix s ys e
    assume a: "sinv b s \<and> search it 0 b s = Some (ys, e)"
    then have inv: "sinv b s"
      and r: "search_body (\<lambda>c s'. put_star it 0 c b s') (\<lambda>s'. None) it b s = Some (ys, e)"
      by (simp_all del: put_star.simps)
    from wf en f g inv r show "\<forall>y\<in>set ys. sinv b y \<and> st_units y = []" by (rule search_body_inv)
  qed
next
  case (Suc d)
  have f: "\<And>c s s'. put_star it (Suc d) c b s = Some (Success, s') \<Longrightarrow> G b s s'"
    using wf en by (rule put_star_G)
  have g: "\<And>g' ys e. sinv b g' \<Longrightarrow> search it d b g' = Some (ys, e) \<Longrightarrow>
      \<forall>y\<in>set ys. sinv b y \<and> st_units y = []" using Suc.IH by blast
  show ?case
  proof (intro allI impI)
    fix s ys e
    assume a: "sinv b s \<and> search it (Suc d) b s = Some (ys, e)"
    then have inv: "sinv b s"
      and r: "search_body (\<lambda>c s'. put_star it (Suc d) c b s') (\<lambda>s'. search it d b s') it b s
        = Some (ys, e)"
      by (simp_all del: put_star.simps)
    from wf en f g inv r show "\<forall>y\<in>set ys. sinv b y \<and> st_units y = []" by (rule search_body_inv)
  qed
qed

lemma put_star_body_stars:
  assumes fs: "\<And>c s r s'. f c s = Some (r, s') \<Longrightarrow> step s s'"
    and r: "put_star_body f it cell b s = Some (Success, s')"
  shows "cell \<in> stars s'"
proof (cases "cell \<in> stars s")
  case True
  with r show ?thesis by (simp add: put_star_body_Success)
next
  case False
  define s1 where "s1 = s\<lparr>stars := insert cell (stars s), unknowns := unknowns s - {cell}\<rparr>"
  from r False obtain ns where "blank_each f (it ns) s1 = Some (Success, s')"
    unfolding put_star_body_Success s1_def by blast
  then have "step s1 s'" by (rule blank_each_step [rotated]) (rule fs)
  then have "stars s1 \<subseteq> stars s'" by (simp add: step_def)
  moreover have "cell \<in> stars s1" by (simp add: s1_def)
  ultimately show ?thesis by (meson subsetD)
qed

lemma put_star_stars:
  assumes "put_star it d c b s = Some (Success, s')"
  shows "c \<in> stars s'"
proof (cases d)
  case 0
  with assms have "put_star_body (\<lambda>c s'. None) it c b s = Some (Success, s')" by simp
  then show ?thesis by (rule put_star_body_stars [rotated]) simp
next
  case (Suc d')
  with assms have "put_star_body (\<lambda>c s'. put_blank it d' c b s') it c b s = Some (Success, s')"
    by simp
  then show ?thesis by (rule put_star_body_stars [rotated]) (rule put_blank_step)
qed

lemma guesses_total:
  assumes f: "\<And>c. c \<in> set cs \<Longrightarrow>
      \<exists>r g'. f c (copy_state s) = Some (r, g') \<and> (\<forall>e. r \<noteq> Raise e) \<and> (r = Success \<longrightarrow> P g')"
    and g: "\<And>g'. P g' \<Longrightarrow> \<exists>ys. g g' = Some (ys, None)"
  shows "\<exists>ys. guesses f g cs s = Some (ys, None)"
  using f
proof (induction cs)
  case Nil
  show ?case by simp
next
  case (Cons c cs)
  from Cons.prems [of c] obtain r g' where fc: "f c (copy_state s) = Some (r, g')"
    and nr: "\<forall>e. r \<noteq> Raise e" and suc: "r = Success \<longrightarrow> P g'" by auto
  have "\<exists>ys. guesses f g cs s = Some (ys, None)" using Cons.IH Cons.prems by simp
  then obtain ys2 where rest: "guesses f g cs s = Some (ys2, None)" ..
  show ?case
  proof (cases r)
    case (Raise x)
    with nr show ?thesis by simp
  next
    case Failure
    with fc rest show ?thesis by simp
  next
    case Success
    with suc g obtain ys1 where "g g' = Some (ys1, None)" by blast
    with fc Success rest show ?thesis by simp
  qed
qed

lemma search_body_total:
  assumes en: "enum_ok it" and fin: "finite (unknowns s)"
    and f: "\<And>c. c \<in> unknowns s \<Longrightarrow>
      \<exists>r g'. f c (drop_filled b s) = Some (r, g') \<and> (\<forall>e. r \<noteq> Raise e) \<and> (r = Success \<longrightarrow> P g')"
    and g: "\<And>g'. P g' \<Longrightarrow> \<exists>ys. g g' = Some (ys, None)"
  shows "\<exists>ys. search_body f g it b s = Some (ys, None)"
proof (cases "st_units (drop_filled b s)")
  case Nil
  then show ?thesis by (simp add: search_body_def Let_def)
next
  case (Cons u us)
  define s0 where "s0 = drop_filled b s"
  have unk: "unknowns s0 = unknowns s" by (simp add: s0_def drop_filled_def)
  have "finite (u \<inter> unknowns s0)" using fin unk by simp
  then have cs: "set (it (u \<inter> unknowns s0)) = u \<inter> unknowns s0" using en by (simp add: enum_ok_set)
  have "\<exists>ys. guesses f g (it (u \<inter> unknowns s0)) s0 = Some (ys, None)"
  proof (rule guesses_total)
    fix c assume "c \<in> set (it (u \<inter> unknowns s0))"
    with cs unk have "c \<in> unknowns s" by simp
    from f [OF this]
    show "\<exists>r g'. f c (copy_state s0) = Some (r, g') \<and> (\<forall>e. r \<noteq> Raise e) \<and> (r = Success \<longrightarrow> P g')"
      by (simp add: copy_state_id s0_def)
  qed (rule g)
  with Cons show ?thesis by (simp add: search_body_def Let_def s0_def)
qed

lemma put_star_guess:
  assumes wf: "wf_board b" and en: "enum_ok it" and ws: "wf_state b s"
    and fin: "finite (unknowns s)" and le: "card (unknowns s) \<le> d" and c: "c \<in> unknowns s"
  shows "\<exists>r g'. put_star it d c b (drop_filled b s) = Some (r, g') \<and> (\<forall>e. r \<noteq> Raise e) \<and>
    (r = Success \<longrightarrow>
      wf_state b g' \<and> finite (unknowns g') \<and> card (unknowns g') < card (unknowns s))"
proof -
  define s0 where "s0 = drop_filled b s"
  have unk: "unknowns s0 = unknowns s" and str: "stars s0 = stars s"
    by (simp_all add: s0_def drop_filled_def)
  have ws0: "wf_state b s0" using ws unk str by (simp add: wf_state_def ok_def)
  have "finite (unknowns s0)" "card (unknowns s0) \<le> d" using fin le unk by simp_all
  then obtain r g' where res: "put_star it d c b s0 = Some (r, g')"
    using put_star_total by blast
  have cin: "c \<in> stars s0 \<union> unknowns s0" using c unk by simp
  have nr: "\<forall>e. r \<noteq> Raise e" using put_star_nr [OF wf en ws0 cin res] by simp
  have "wf_state b g' \<and> finite (unknowns g') \<and> card (unknowns g') < card (unknowns s)"
    if suc: "r = Success"
  proof -
    have st: "step s0 g'" using res by (rule put_star_step)
    have w: "wf_state b g'" using st ws0 by (rule wf_state_step)
    have sub: "unknowns g' \<subseteq> unknowns s" using st unk by (simp add: step_def)
    have "c \<in> stars g'" using res suc by (simp add: put_star_stars)
    moreover have "stars g' \<inter> unknowns g' = {}" using w by (simp add: wf_state_def ok_def)
    ultimately have "c \<notin> unknowns g'" by blast
    with sub c have "unknowns g' \<subset> unknowns s" by blast
    then have "card (unknowns g') < card (unknowns s)" using fin by (rule psubset_card_mono [rotated])
    moreover have "finite (unknowns g')" using sub fin by (rule finite_subset)
    ultimately show ?thesis using w by simp
  qed
  with res nr show ?thesis unfolding s0_def by blast
qed

lemma search_total:
  assumes wf: "wf_board b" and en: "enum_ok it"
  shows "\<forall>s. wf_state b s \<and> finite (unknowns s) \<and> card (unknowns s) \<le> d \<longrightarrow>
    (\<exists>ys. search it d b s = Some (ys, None))"
proof (induction d)
  case 0
  show ?case
  proof (intro allI impI)
    fix s :: state
    assume a: "wf_state b s \<and> finite (unknowns s) \<and> card (unknowns s) \<le> 0"
    then have ws: "wf_state b s" and fin: "finite (unknowns s)" and le: "card (unknowns s) \<le> 0"
      by simp_all
    have "\<exists>ys. search_body (\<lambda>c s'. put_star it 0 c b s') (\<lambda>s'. None) it b s = Some (ys, None)"
    proof (rule search_body_total [OF en fin, where
          P = "\<lambda>g'. wf_state b g' \<and> finite (unknowns g') \<and> card (unknowns g') < card (unknowns s)"])
      fix c assume "c \<in> unknowns s"
      with wf en ws fin le
      show "\<exists>r g'. put_star it 0 c b (drop_filled b s) = Some (r, g') \<and> (\<forall>e. r \<noteq> Raise e) \<and>
        (r = Success \<longrightarrow>
          wf_state b g' \<and> finite (unknowns g') \<and> card (unknowns g') < card (unknowns s))"
        by (rule put_star_guess)
    next
      fix g' :: state
      assume "wf_state b g' \<and> finite (unknowns g') \<and> card (unknowns g') < card (unknowns s)"
      with le show "\<exists>ys. (None :: yields) = Some (ys, None)" by simp
    qed
    then show "\<exists>ys. search it 0 b s = Some (ys, None)" by (simp del: put_star.simps)
  qed
next
  case (Suc d)
  show ?case
  proof (intro allI impI)
    fix s :: state
    assume a: "wf_state b s \<and> finite (unknowns s) \<and> card (unknowns s) \<le> Suc d"
    then have ws: "wf_state b s" and fin: "finite (unknowns s)" and le: "card (unknowns s) \<le> Suc d"
      by simp_all
    have "\<exists>ys. search_body (\<lambda>c s'. put_star it (Suc d) c b s') (\<lambda>s'. search it d b s') it b s
      = Some (ys, None)"
    proof (rule search_body_total [OF en fin, where
          P = "\<lambda>g'. wf_state b g' \<and> finite (unknowns g') \<and> card (unknowns g') < card (unknowns s)"])
      fix c assume "c \<in> unknowns s"
      with wf en ws fin le
      show "\<exists>r g'. put_star it (Suc d) c b (drop_filled b s) = Some (r, g') \<and> (\<forall>e. r \<noteq> Raise e) \<and>
        (r = Success \<longrightarrow>
          wf_state b g' \<and> finite (unknowns g') \<and> card (unknowns g') < card (unknowns s))"
        by (rule put_star_guess)
    next
      fix g' :: state
      assume "wf_state b g' \<and> finite (unknowns g') \<and> card (unknowns g') < card (unknowns s)"
      with le have "wf_state b g' \<and> finite (unknowns g') \<and> card (unknowns g') \<le> d" by simp
      with Suc.IH show "\<exists>ys. search it d b g' = Some (ys, None)" by blast
    qed
    then show "\<exists>ys. search it (Suc d) b s = Some (ys, None)" by (simp del: put_star.simps)
  qed
qed

lemma enum_ok_ascending: "enum_ok ascending"
  by (simp add: enum_ok_def ascending_def)

lemma wf_board_1x1: "wf_board (board_1x1 s)"
  by (auto simp: wf_board_def board_1x1_def)

lemma wf_state_initial: "wf_board b \<Longrightarrow> wf_state b (initial_state b)"
  by (simp add: wf_state_def wf_board_def initial_state_def ok_def)

lemma no_solution_1x1: "is_solution (board_1x1 2) st \<noteq> Inr True"
proof -
  have "card (st \<inter> {0}) \<le> card {0::int}" by (intro card_mono) simp_all
  then have "int (card (st \<inter> {0})) \<noteq> 2" by simp
  then show ?thesis by (simp add: is_solution_def board_1x1_def)
qed

text \<open>
  Claim C1. On a board as \<^verbatim>\<open>make_board\<close> builds it, the stars of every state that
  \<^verbatim>\<open>search\<close> yields from the initial state are a solution in the sense of
  \<^verbatim>\<open>is_solution\<close>: every unit holds exactly \<open>S\<close> of them and no star is a neighbour of
  a star.
\<close>

theorem search_sound:
  assumes "wf_board b" "enum_ok it"
    and "search it d b (initial_state b) = Some (ys, e)" and "y \<in> set ys"
  shows "is_solution b (stars y) = Inr True"
proof -
  have "sinv b (initial_state b)" by (rule sinv_initial)
  with search_inv [OF assms(1,2), of d] assms(3)
  have "\<forall>y\<in>set ys. sinv b y \<and> st_units y = []" by blast
  with assms(4) have "sinv b y" "st_units y = []" by simp_all
  then show ?thesis by (rule sinv_solution)
qed

theorem search_sound_witness:
  "search ascending 1 (board_1x1 1) (initial_state (board_1x1 1))
     = Some ([\<lparr>st_units = [], stars = {0}, unknowns = {}\<rparr>], None) \<and>
   is_solution (board_1x1 1) {0} = Inr True"
proof -
  have 1: "search ascending 1 (board_1x1 1) (initial_state (board_1x1 1))
     = Some ([\<lparr>st_units = [], stars = {0}, unknowns = {}\<rparr>], None)"
    by code_simp
  from search_sound [OF wf_board_1x1 enum_ok_ascending 1] show ?thesis using 1 by simp
qed

text \<open>
  Claim C2, as amended. On a board with no solution, \<^verbatim>\<open>search\<close> from the initial state
  ends without a state and without an exception, and \<^verbatim>\<open>solve\<close> raises
  \<^verbatim>\<open>StopIteration\<close>, as its docstring announces; it does not return a "none" value.
\<close>

theorem search_unsatisfiable:
  assumes "wf_board b" "enum_ok it"
    and "\<forall>st. is_solution b st \<noteq> Inr True" and "nat ((N b) ^ 2) \<le> d"
  shows "search it d b (initial_state b) = Some ([], None) \<and>
         solve it d b = Some (Inl StopIteration)"
proof -
  have ws: "wf_state b (initial_state b)" using assms(1) by (rule wf_state_initial)
  have "finite (unknowns (initial_state b))" "card (unknowns (initial_state b)) \<le> d"
    using assms(4) by (simp_all add: initial_state_def)
  with search_total [OF assms(1,2), of d] ws
  obtain ys where r: "search it d b (initial_state b) = Some (ys, None)" by blast
  have "ys = []"
  proof (cases ys)
    case Nil
    then show ?thesis .
  next
    case (Cons y ys')
    then have "y \<in> set ys" by simp
    with sinv_initial search_inv [OF assms(1,2), of d] r
    have "sinv b y \<and> st_units y = []" by blast
    then have "is_solution b (stars y) = Inr True" by (simp add: sinv_solution)
    with assms(3) show ?thesis by simp
  qed
  with r show ?thesis by (simp add: solve_def)
qed

theorem search_unsatisfiable_witness:
  "search ascending 1 (board_1x1 2) (initial_state (board_1x1 2)) = Some ([], None) \<and>
   solve ascending 1 (board_1x1 2) = Some (Inl StopIteration)"
proof -
  have "\<forall>st. is_solution (board_1x1 2) st \<noteq> Inr True" using no_solution_1x1 by simp
  moreover have "nat ((N (board_1x1 2)) ^ 2) \<le> 1" by (simp add: board_1x1_def)
  ultimately show ?thesis
    using search_unsatisfiable [OF wf_board_1x1 enum_ok_ascending, of 2 1] by simp
qed

text \<open>
  The board of the picture \<^verbatim>\<open>a\<close> with two stars per unit has no solution;
  \<^verbatim>\<open>search\<close> yields nothing and \<^verbatim>\<open>solve\<close> raises \<^verbatim>\<open>StopIteration\<close>.
\<close>

theorem solve_raises_counterexample:
  "search ascending 1 (board_1x1 2) (initial_state (board_1x1 2)) = Some ([], None) \<and>
   solve ascending 1 (board_1x1 2) = Some (Inl StopIteration)"
  by code_simp

lemma grid_cell_bound:
  fixes n r c :: int
  assumes "0 \<le> r" "r < n" "0 \<le> c" "c < n"
  shows "0 \<le> n * r + c \<and> n * r + c < n * n"
proof -
  have n: "0 \<le> n" using assms by simp
  have le: "n * r \<le> n * (n - 1)" using assms n by (intro mult_left_mono) simp_all
  have eq: "n * (n - 1) + n = n * n" by (simp add: algebra_simps)
  have "n * r + c < n * (n - 1) + n" using le assms(4) by linarith
  then have 1: "n * r + c < n * n" using eq by simp
  have "0 \<le> n * r" using n assms(1) by simp
  then have 2: "0 \<le> n * r + c" using assms(3) by linarith
  from 1 2 show ?thesis by simp
qed

lemma grid_cell_split:
  fixes n c :: int
  assumes "0 \<le> n" "0 \<le> c" "c < n * n"
  shows "\<exists>r\<in>{0..n - 1}. \<exists>k\<in>{0..n - 1}. c = n * r + k"
proof -
  have "n \<noteq> 0" using assms by auto
  with assms(1) have n: "0 < n" by simp
  have low: "n * (c div n) \<le> c"
  proof -
    have "n * (c div n) + c mod n = c" by simp
    moreover have "0 \<le> c mod n" using n by simp
    ultimately show ?thesis by linarith
  qed
  have "c div n < n"
  proof (rule ccontr)
    assume "\<not> c div n < n"
    then have "n * n \<le> n * (c div n)" using assms(1) by (intro mult_left_mono) simp_all
    with low assms(3) show False by linarith
  qed
  moreover have "0 \<le> c div n" using assms n by (simp add: pos_imp_zdiv_nonneg_iff)
  moreover have "0 \<le> c mod n" "c mod n < n" using n by simp_all
  moreover have "c = n * (c div n) + c mod n" by simp
  ultimately show ?thesis by (intro bexI [of _ "c div n"] bexI [of _ "c mod n"]) auto
qed

lemma indexes_bound: "indexes p ch \<subseteq> {0..<int (length p)}"
  by (auto simp: indexes_def)

lemma indexes_finite: "finite (indexes p ch)"
  by (simp add: indexes_def)

lemma make_board_wf:
  assumes en: "enum_ok itc" and mb: "make_board itc s picture = Inr b"
  shows "wf_board b"
proof -
  define p where "p = filter (\<lambda>ch. \<not> whitespace ch) picture"
  define n where "n = int (isqrt (length p))"
  define cols where "cols = map (\<lambda>c. (\<lambda>r. n * r + c) ` set [0..n - 1]) [0..n - 1]"
  define rows where "rows = map (\<lambda>r. (\<lambda>c. n * r + c) ` set [0..n - 1]) [0..n - 1]"
  define boxes where "boxes = map (indexes p) (itc (set p))"
  define us where "us = cols @ rows @ boxes"
  have len: "int (length p) = n * n"
    using mb by (simp add: make_board_def Let_def p_def n_def split: if_splits)
  have ne: "\<not> int (length p) \<noteq> n * n" using len by simp
  have "make_board itc s picture = Inr \<lparr>N = n, S = s, units = us,
      units_for = (\<lambda>c. if 0 \<le> c \<and> c < n * n then Some (filter (\<lambda>u. c \<in> u) us) else None),
      pic = p\<rparr>"
    unfolding make_board_def Let_def p_def [symmetric] n_def [symmetric]
      us_def cols_def rows_def boxes_def
    using ne by (rule if_not_P)
  with mb have b: "b = \<lparr>N = n, S = s, units = us,
      units_for = (\<lambda>c. if 0 \<le> c \<and> c < n * n then Some (filter (\<lambda>u. c \<in> u) us) else None),
      pic = p\<rparr>"
    by (simp only: sum.inject)
  have n0: "0 \<le> n" by (simp add: n_def)
  have bound: "u \<subseteq> {0..<n * n}" if "u \<in> set us" for u
  proof -
    from that consider "u \<in> set cols" | "u \<in> set rows" | "u \<in> set boxes" by (auto simp: us_def)
    then show ?thesis
    proof cases
      case 1
      then obtain c where c: "0 \<le> c" "c \<le> n - 1" and u: "u = (\<lambda>r. n * r + c) ` {0..n - 1}"
        by (auto simp: cols_def)
      show ?thesis
      proof
        fix x assume "x \<in> u"
        with u obtain r where "0 \<le> r" "r \<le> n - 1" "x = n * r + c" by auto
        with c grid_cell_bound [of r n c] show "x \<in> {0..<n * n}" by simp
      qed
    next
      case 2
      then obtain r where r: "0 \<le> r" "r \<le> n - 1" and u: "u = (\<lambda>c. n * r + c) ` {0..n - 1}"
        by (auto simp: rows_def)
      show ?thesis
      proof
        fix x assume "x \<in> u"
        with u have "0 \<le> x - n * r" "x - n * r \<le> n - 1" by auto
        with r grid_cell_bound [of r n "x - n * r"] show "x \<in> {0..<n * n}" by simp
      qed
    next
      case 3
      then obtain ch where "u = indexes p ch" by (auto simp: boxes_def)
      with indexes_bound [of p ch] len show ?thesis by simp
    qed
  qed
  have fin: "finite u" if "u \<in> set us" for u
    using bound [OF that] by (rule finite_subset) simp
  have cover: "{0..<n ^ 2} \<subseteq> \<Union>(set us)"
  proof
    fix c assume "c \<in> {0..<n ^ 2}"
    then have c: "0 \<le> c" "c < n * n" by (simp_all add: power2_eq_square)
    from grid_cell_split [OF n0 c] obtain r k where r: "r \<in> {0..n - 1}" and k: "k \<in> {0..n - 1}"
      and eq: "c = n * r + k" by blast
    have "(\<lambda>c. n * r + c) ` set [0..n - 1] \<in> set rows" using r by (simp add: rows_def)
    moreover have "c \<in> (\<lambda>c. n * r + c) ` set [0..n - 1]" using k eq by simp
    ultimately show "c \<in> \<Union>(set us)" unfolding us_def by (metis UnionI Un_iff set_append)
  qed
  have empty: "us = []" if "n = 0"
  proof -
    have "p = []" using len that by simp
    then have "set (itc (set p)) = {}" using en by (simp add: enum_ok_set)
    then have "boxes = []" by (simp add: boxes_def)
    moreover have "cols = []" "rows = []" using that by (simp_all add: cols_def rows_def)
    ultimately show ?thesis by (simp add: us_def)
  qed
  have uf: "units_for b c = Some (filter (\<lambda>u. c \<in> u) (units b))" if "c \<in> \<Union>(set (units b))" for c
  proof -
    from that obtain u where "u \<in> set us" "c \<in> u" by (auto simp: b)
    with bound have "0 \<le> c \<and> c < n * n" by fastforce
    then show ?thesis by (simp add: b)
  qed
  have 1: "\<forall>u\<in>set (units b). finite u" using fin by (simp add: b)
  have 2: "{0..<(N b) ^ 2} \<subseteq> \<Union>(set (units b))" using cover by (simp add: b)
  have 3: "N b = 0 \<longrightarrow> units b = []" using empty by (simp add: b)
  from 1 uf 2 3 show ?thesis unfolding wf_board_def by blast
qed

lemma wf_board_of: "wf_board (board_of s picture)"
proof (cases "make_board ascending s picture")
  case (Inl e)
  then show ?thesis by (simp add: board_of_def wf_board_def)
next
  case (Inr b)
  with enum_ok_ascending have "wf_board b" by (rule make_board_wf)
  with Inr show ?thesis by (simp add: board_of_def)
qed

lemma make_board_1x1: "make_board ascending s ''a'' = Inr (board_1x1 s)"
  by (auto simp: make_board_def Let_def isqrt_def whitespace_def board_1x1_def indexes_def
      ascending_def fun_eq_iff)

lemma put_star_body_nbrs:
  assumes en: "enum_ok it"
    and fb: "\<And>c s r s'. f c s = Some (r, s') \<Longrightarrow>
      step s s' \<and> (c \<notin> stars s \<longrightarrow> c \<notin> stars s' \<union> unknowns s')"
    and r: "put_star_body f it cell b s = Some (Success, s')"
    and nc: "cell \<notin> stars s" and nb: "neighbors cell (N b) = Inr ns"
  shows "\<forall>n\<in>ns. n \<notin> stars s' \<union> unknowns s'"
proof -
  from r nc nb obtain s1 where loop: "blank_each f (it ns) s1 = Some (Success, s')"
    unfolding put_star_body_Success by auto
  have "set (it ns) = ns" using en nb by (simp add: enum_ok_set neighbors_finite)
  moreover have "\<forall>c\<in>set (it ns). c \<notin> stars s' \<union> unknowns s'"
    using loop by (rule blank_each_blanks [rotated]) (rule fb)
  ultimately show ?thesis by simp
qed

lemma put_star_nbrs:
  assumes en: "enum_ok it" and r: "put_star it d cell b s = Some (Success, s')"
    and nc: "cell \<notin> stars s" and nb: "neighbors cell (N b) = Inr ns"
  shows "\<forall>n\<in>ns. n \<notin> stars s' \<union> unknowns s'"
proof (cases d)
  case 0
  have fb: "\<And>c s r s'. (None :: result) = Some (r, s') \<Longrightarrow>
      step s s' \<and> (c \<notin> stars s \<longrightarrow> c \<notin> stars s' \<union> unknowns s')" by simp
  from r 0 have "put_star_body (\<lambda>c s'. None) it cell b s = Some (Success, s')" by simp
  with en fb show ?thesis using nc nb by (rule put_star_body_nbrs)
next
  case (Suc d')
  have fb: "\<And>c s r s'. put_blank it d' c b s = Some (r, s') \<Longrightarrow>
      step s s' \<and> (c \<notin> stars s \<longrightarrow> c \<notin> stars s' \<union> unknowns s')" by (rule put_blank_bstep)
  from r Suc have "put_star_body (\<lambda>c s'. put_blank it d' c b s') it cell b s = Some (Success, s')"
    by simp
  with en fb show ?thesis using nc nb by (rule put_star_body_nbrs)
qed

text \<open>
  Claim C4, as amended. For an unknown cell of a state of a board as \<^verbatim>\<open>make_board\<close>
  builds it: a neighbour that already holds a star is not skipped, it makes
  \<^verbatim>\<open>put_star\<close> fail; whenever \<^verbatim>\<open>put_star\<close> succeeds, every neighbour of the cell is
  a confirmed blank afterwards; and \<^verbatim>\<open>put_star\<close> succeeds when, after the move, no unit
  of the cell holds more than \<open>S\<close> stars and the loop over the neighbours succeeds, that
  is, each neighbour in turn is no star and \<^verbatim>\<open>put_blank\<close> succeeds on it.
\<close>

theorem put_star_neighbours:
  assumes "wf_board b" "enum_ok it"
    and "stars s \<inter> unknowns s = {}" and "stars s \<union> unknowns s \<subseteq> \<Union>(set (units b))"
    and "cell \<in> unknowns s" and "neighbors cell (N b) = Inr ns"
    and "units_for b cell = Some us"
  shows "((\<exists>n\<in>ns. n \<in> stars s) \<longrightarrow>
           (\<forall>r s'. put_star it d cell b s = Some (r, s') \<longrightarrow> r = Failure)) \<and>
         (\<forall>s'. put_star it d cell b s = Some (Success, s') \<longrightarrow>
           (\<forall>n\<in>ns. n \<notin> stars s' \<and> n \<notin> unknowns s')) \<and>
         (\<forall>s'. (\<forall>u\<in>set us. count_stars u
                  (s\<lparr>stars := insert cell (stars s), unknowns := unknowns s - {cell}\<rparr>) \<le> S b) \<and>
               blank_each (\<lambda>c st. put_blank it d c b st) (it ns)
                  (s\<lparr>stars := insert cell (stars s), unknowns := unknowns s - {cell}\<rparr>)
                  = Some (Success, s') \<longrightarrow>
           put_star it (Suc d) cell b s = Some (Success, s'))"
proof -
  have nc: "cell \<notin> stars s" using assms(3,5) by blast
  have ws: "wf_state b s" using assms(3,4) by (simp add: wf_state_def ok_def)
  have cin: "cell \<in> stars s \<union> unknowns s" using assms(5) by simp
  have A: "(\<exists>n\<in>ns. n \<in> stars s) \<longrightarrow>
      (\<forall>r s'. put_star it d cell b s = Some (r, s') \<longrightarrow> r = Failure)"
  proof (intro impI allI)
    fix r s'
    assume ex: "\<exists>n\<in>ns. n \<in> stars s" and res: "put_star it d cell b s = Some (r, s')"
    from ex obtain n where n: "n \<in> ns" "n \<in> stars s" by blast
    have "r \<noteq> Success"
    proof
      assume "r = Success"
      with res have suc: "put_star it d cell b s = Some (Success, s')" by simp
      from put_star_nbrs [OF assms(2) suc nc assms(6)] n have "n \<notin> stars s'" by simp
      moreover have "step s s'" using res by (rule put_star_step)
      then have "stars s \<subseteq> stars s'" by (simp add: step_def)
      ultimately show False using n by blast
    qed
    moreover have "\<forall>e. r \<noteq> Raise e"
      using put_star_nr [OF assms(1,2) ws cin res] by simp
    ultimately show "r = Failure" by (cases r) simp_all
  qed
  have B: "\<forall>s'. put_star it d cell b s = Some (Success, s') \<longrightarrow>
      (\<forall>n\<in>ns. n \<notin> stars s' \<and> n \<notin> unknowns s')"
  proof (intro allI impI)
    fix s'
    assume suc: "put_star it d cell b s = Some (Success, s')"
    from put_star_nbrs [OF assms(2) suc nc assms(6)]
    show "\<forall>n\<in>ns. n \<notin> stars s' \<and> n \<notin> unknowns s'" by simp
  qed
  have C: "\<forall>s'. (\<forall>u\<in>set us. count_stars u
          (s\<lparr>stars := insert cell (stars s), unknowns := unknowns s - {cell}\<rparr>) \<le> S b) \<and>
        blank_each (\<lambda>c st. put_blank it d c b st) (it ns)
          (s\<lparr>stars := insert cell (stars s), unknowns := unknowns s - {cell}\<rparr>)
          = Some (Success, s') \<longrightarrow>
      put_star it (Suc d) cell b s = Some (Success, s')"
    unfolding put_star.simps put_star_body_Success using nc assms(5,6,7) by blast
  from A B C show ?thesis by (intro conjI)
qed

text \<open>
  Claim C5, as amended. When \<^verbatim>\<open>put_blank\<close> is called on a cell that is unknown and
  returns success, every unit of the cell that held at most \<open>S\<close> stars before holds at
  most \<open>S\<close> stars afterwards, and its stars and unknown cells together are at least
  \<open>S\<close>.
\<close>

theorem put_blank_quota:
  assumes "wf_board b" "enum_ok it"
    and "stars s \<inter> unknowns s = {}" and "cell \<in> unknowns s"
    and "u \<in> set (units b)" and "cell \<in> u" and "count_stars u s \<le> S b"
    and "put_blank it d cell b s = Some (Success, s')"
  shows "count_stars u s' \<le> S b \<and> S b \<le> count_stars u s' + int (card (u \<inter> unknowns s'))"
proof -
  have oks: "ok s" using assms(3) by (simp add: ok_def)
  have g: "G b s s'" using assms(1,2,8) by (rule put_blank_G)
  then have st: "step s s'" and gd: "good b s s'" using oks by (simp_all add: G_def)
  have ok': "ok s'" using st oks by (rule step_ok)
  have fin: "finite u" using assms(1,5) by (rule wf_board_finite)
  have 1: "count_stars u s' \<le> S b"
  proof (cases "count_stars u s' = count_stars u s")
    case True
    with assms(7) show ?thesis by simp
  next
    case False
    with gd assms(5) show ?thesis by (simp add: good_def)
  qed
  have nc: "cell \<notin> stars s" using assms(3,4) by blast
  have gone: "cell \<notin> stars s' \<union> unknowns s'" using assms(8) nc by (rule put_blank_blanks)
  have "u \<inter> (stars s' \<union> unknowns s') \<subseteq> u \<inter> (stars s \<union> unknowns s)"
    using st by (auto simp: step_def)
  moreover have "cell \<in> u \<inter> (stars s \<union> unknowns s)" using assms(4,6) by simp
  ultimately have "u \<inter> (stars s' \<union> unknowns s') \<subset> u \<inter> (stars s \<union> unknowns s)"
    using gone by blast
  then have "card (u \<inter> (stars s' \<union> unknowns s')) < card (u \<inter> (stars s \<union> unknowns s))"
    using fin by (intro psubset_card_mono) simp_all
  then have "pot u s' < pot u s" using fin oks ok' by (simp add: pot_card)
  with gd assms(5) have "S b \<le> pot u s'" by (simp add: good_def)
  with 1 show ?thesis by (simp add: pot_def)
qed

theorem put_star_neighbours_witness:
  "put_star ascending 1 6 board5x5 \<lparr>st_units = [], stars = {0}, unknowns = {6}\<rparr>
     = Some (Failure, \<lparr>st_units = [], stars = {0, 6}, unknowns = {}\<rparr>) \<and>
   put_star ascending 1 12 board5x5 \<lparr>st_units = [], stars = {}, unknowns = {12}\<rparr>
     = Some (Success, \<lparr>st_units = [], stars = {12}, unknowns = {}\<rparr>) \<and>
   list_all (\<lambda>n. n \<notin> stars \<lparr>st_units = [], stars = {12}, unknowns = {}\<rparr> \<and>
                 n \<notin> unknowns \<lparr>st_units = [], stars = {12}, unknowns = {}\<rparr>)
     [6, 7, 8, 11, 13, 16, 17, 18]"
proof -
  let ?a = "\<lparr>st_units = [], stars = {0}, unknowns = {6}\<rparr>"
  let ?b = "\<lparr>st_units = [], stars = {}, unknowns = {12}\<rparr>"
  have wf: "wf_board board5x5" unfolding board5x5_def by (rule wf_board_of)
  have da: "stars ?a \<inter> unknowns ?a = {}" and db: "stars ?b \<inter> unknowns ?b = {}" by simp_all
  have sa: "stars ?a \<union> unknowns ?a \<subseteq> \<Union>(set (units board5x5))" by code_simp
  have sb: "stars ?b \<union> unknowns ?b \<subseteq> \<Union>(set (units board5x5))" by code_simp
  have ca: "6 \<in> unknowns ?a" and cb: "12 \<in> unknowns ?b" by simp_all
  have na: "neighbors 6 (N board5x5) = Inr {0, 1, 2, 5, 7, 10, 11, 12}" by code_simp
  have nb: "neighbors 12 (N board5x5) = Inr {6, 7, 8, 11, 13, 16, 17, 18}" by code_simp
  have ua: "units_for board5x5 6 = Some [{1, 6, 11, 16, 21}, {5, 6, 7, 8, 9}, {1, 6, 11}]"
    by code_simp
  have ub: "units_for board5x5 12
      = Some [{2, 7, 12, 17, 22}, {10, 11, 12, 13, 14}, {7, 8, 12, 13}]"
    by code_simp
  have ra: "put_star ascending 1 6 board5x5 ?a
      = Some (Failure, \<lparr>st_units = [], stars = {0, 6}, unknowns = {}\<rparr>)"
    by code_simp
  have rb: "put_star ascending 1 12 board5x5 ?b
      = Some (Success, \<lparr>st_units = [], stars = {12}, unknowns = {}\<rparr>)"
    by code_simp
  from put_star_neighbours [OF wf enum_ok_ascending da sa ca na ua, of 1] ra
    put_star_neighbours [OF wf enum_ok_ascending db sb cb nb ub, of 1] rb
  show ?thesis by simp
qed

text \<open>
  On the 5\<times>5 board, with a star in cell 0 and cell 6 the only unknown cell: after the
  move no unit of cell 6 holds more than one star, and \<^verbatim>\<open>put_blank\<close> succeeds on each of
  the seven neighbours of cell 6 that hold no star; still \<^verbatim>\<open>put_star\<close> fails, because
  the neighbour 0 holds a star.
\<close>

theorem star_neighbour_counterexample:
  "put_star ascending 1 6 board5x5 \<lparr>st_units = [], stars = {0}, unknowns = {6}\<rparr>
     = Some (Failure, \<lparr>st_units = [], stars = {0, 6}, unknowns = {}\<rparr>) \<and>
   neighbors 6 (N board5x5) = Inr {0, 1, 2, 5, 7, 10, 11, 12} \<and>
   units_for board5x5 6 = Some [{1, 6, 11, 16, 21}, {5, 6, 7, 8, 9}, {1, 6, 11}] \<and>
   list_all (\<lambda>u. count_stars u \<lparr>st_units = [], stars = {0, 6}, unknowns = {}\<rparr> \<le> S board5x5)
     [{1, 6, 11, 16, 21}, {5, 6, 7, 8, 9}, {1, 6, 11}] \<and>
   list_all (\<lambda>n. put_blank ascending 0 n board5x5 \<lparr>st_units = [], stars = {0, 6}, unknowns = {}\<rparr>
       = Some (Success, \<lparr>st_units = [], stars = {0, 6}, unknowns = {}\<rparr>))
     [1, 2, 5, 7, 10, 11, 12]"
  by code_simp

theorem put_blank_quota_witness:
  "put_blank ascending 1 12 board5x5 (initial_state board5x5)
     = Some (Success, (initial_state board5x5)\<lparr>unknowns := {0..<25} - {12}\<rparr>) \<and>
   count_stars {10, 11, 12, 13, 14} ((initial_state board5x5)\<lparr>unknowns := {0..<25} - {12}\<rparr>)
     \<le> S board5x5 \<and>
   S board5x5 \<le> count_stars {10, 11, 12, 13, 14}
       ((initial_state board5x5)\<lparr>unknowns := {0..<25} - {12}\<rparr>)
     + int (card ({10, 11, 12, 13, 14} \<inter>
         unknowns ((initial_state board5x5)\<lparr>unknowns := {0..<25} - {12}\<rparr>)))"
proof -
  let ?s = "initial_state board5x5"
  have wf: "wf_board board5x5" unfolding board5x5_def by (rule wf_board_of)
  have d: "stars ?s \<inter> unknowns ?s = {}" by (simp add: initial_state_def)
  have c: "12 \<in> unknowns ?s" by code_simp
  have u: "{10, 11, 12, 13, 14} \<in> set (units board5x5)" by code_simp
  have cu: "(12::int) \<in> {10, 11, 12, 13, 14}" by simp
  have q: "count_stars {10, 11, 12, 13, 14} ?s \<le> S board5x5" by code_simp
  have r: "put_blank ascending 1 12 board5x5 ?s
      = Some (Success, ?s\<lparr>unknowns := {0..<25} - {12}\<rparr>)"
    by code_simp
  from put_blank_quota [OF wf enum_ok_ascending d c u cu q r] r show ?thesis by simp
qed

text \<open>
  On the 1\<times>1 board with two stars per unit, \<^verbatim>\<open>put_star\<close> on cell 0 of the initial
  state succeeds; in the state it leaves, \<^verbatim>\<open>put_blank\<close> on cell 0 succeeds at once,
  and the unit \<open>{0}\<close> of that cell has one star and no unknown cell, fewer than two.
\<close>

theorem put_blank_quota_counterexample:
  "put_star ascending 1 0 (board_1x1 2) (initial_state (board_1x1 2))
     = Some (Success, \<lparr>st_units = [{0}, {0}, {0}], stars = {0}, unknowns = {}\<rparr>) \<and>
   put_blank ascending 1 0 (board_1x1 2) \<lparr>st_units = [{0}, {0}, {0}], stars = {0}, unknowns = {}\<rparr>
     = Some (Success, \<lparr>st_units = [{0}, {0}, {0}], stars = {0}, unknowns = {}\<rparr>) \<and>
   {0} \<in> set (units (board_1x1 2)) \<and>
   \<not> S (board_1x1 2) \<le> count_stars {0} \<lparr>st_units = [{0}, {0}, {0}], stars = {0}, unknowns = {}\<rparr>
       + int (card ({0} \<inter> unknowns \<lparr>st_units = [{0}, {0}, {0}], stars = {0}, unknowns = {}\<rparr>))"
  by code_simp




























theorem propagation_terminates_witness:
  "put_star ascending 4 3 board2x2 (initial_state board2x2)
     = Some (Failure, \<lparr>st_units = [{0}, {1}, {2}, {3}, {0, 2}, {1, 3}, {0, 1}, {2, 3}],
                       stars = {2, 3}, unknowns = {1}\<rparr>) \<and>
   put_blank ascending 4 3 board2x2 (initial_state board2x2)
     = Some (Failure, \<lparr>st_units = [{0}, {1}, {2}, {3}, {0, 2}, {1, 3}, {0, 1}, {2, 3}],
                       stars = {1, 2}, unknowns = {}\<rparr>) \<and>
   put_blank ascending 3 3 board2x2 (initial_state board2x2) = None"
proof -
  have 1: "unknowns (initial_state board2x2) \<subseteq> {0..<(N board2x2) ^ 2}" by code_simp
  have 2: "nat ((N board2x2) ^ 2) \<le> 4" by code_simp
  have 3: "put_star ascending 4 3 board2x2 (initial_state board2x2)
     = Some (Failure, \<lparr>st_units = [{0}, {1}, {2}, {3}, {0, 2}, {1, 3}, {0, 1}, {2, 3}],
                       stars = {2, 3}, unknowns = {1}\<rparr>)"
    by code_simp
  have 4: "put_blank ascending 4 3 board2x2 (initial_state board2x2)
     = Some (Failure, \<lparr>st_units = [{0}, {1}, {2}, {3}, {0, 2}, {1, 3}, {0, 1}, {2, 3}],
                       stars = {1, 2}, unknowns = {}\<rparr>)"
    by code_simp
  have 5: "put_blank ascending 3 3 board2x2 (initial_state board2x2) = None" by code_simp
  from propagation_terminates [OF 1 2, of ascending 3] 3 4 5 show ?thesis by simp
qed




end
